theory Spec2Isabelle
  imports Complex_Main
begin

section \<open>Data model shared by rr.c and sjf.c\<close>

text \<open>
  The programs are modelled in two steps.  In the first sections the C type \<open>int\<close> is
  the mathematical integers and every \<open>malloc\<close>, \<open>calloc\<close> and \<open>realloc\<close> succeeds:
  these are the executions in which no intermediate value leaves the range of \<open>int\<close>
  and storage is available.  The one place where the width of \<open>int\<close> is visible in
  such an execution is the constant \<open>INT_MAX\<close>, which sjf.c uses as a starting value of
  two scans; it is kept as the 32-bit constant.  The section on 32-bit integers and
  fallible allocation then gives the same functions with wrap-around arithmetic and with
  allocations that may be refused, and the section after it proves that the two steps
  agree on every input whose times fit in \<open>int\<close>.
\<close>

definition INT_MAX :: int where
  "INT_MAX = 2147483647"

text \<open>The struct \<open>Process\<close> of sjf.c.\<close>

record process =
  pid :: int
  arrival :: int
  burst :: int
  remaining :: int
  completion :: int
  waiting :: int
  turnaround :: int

text \<open>
  The struct \<open>Process\<close> of rr.c: the same fields followed by the flag \<open>enqueued\<close>
  (an \<open>int\<close> that only ever holds 0 or 1, modelled as a truth value).
\<close>

record rr_process = process +
  enqueued :: bool

text \<open>The struct \<open>Segment\<close>: \<open>s_pid = -1\<close> means IDLE, \<open>s_start\<close> is inclusive, \<open>s_end\<close> exclusive.\<close>

record segment =
  s_pid :: int
  s_start :: int
  s_end :: int

subsection \<open>Timeline recorder: \<open>add_segment\<close>\<close>

text \<open>
  The dynamic array \<open>segs\<close> with its \<open>count\<close> is a list.  The capacity doubling of
  \<open>realloc\<close> manages storage only; it is part of \<open>add_segment_m\<close> below.
\<close>

definition add_segment :: "segment list \<Rightarrow> int \<Rightarrow> int \<Rightarrow> int \<Rightarrow> segment list" where
  "add_segment sgs p st en =
     (if st = en then sgs
      else if sgs \<noteq> [] \<and> s_pid (last sgs) = p \<and> s_end (last sgs) = st
           then butlast sgs @ [(last sgs)\<lparr>s_end := en\<rparr>]
      else sgs @ [\<lparr>s_pid = p, s_start = st, s_end = en\<rparr>])"

text \<open>\<open>all_done\<close>: the scan returns 0 at the first record with \<open>remaining > 0\<close>.\<close>

primrec all_done :: "'a process_scheme list \<Rightarrow> bool" where
  "all_done [] = True"
| "all_done (p # ps) = (if remaining p > 0 then False else all_done ps)"

section \<open>sjf.c: preemptive shortest job first (SRTF)\<close>

record srtf_state =
  sj_procs :: "process list"
  sj_segs :: "segment list"
  sj_clock :: int

text \<open>
  One pass of the selection scan of sjf.c (lines 109-122) at index \<open>i\<close>.  The pair is
  (\<open>pick\<close>, \<open>best_rem\<close>); \<open>pick = -1\<close> is \<open>None\<close>.
\<close>

definition pick_step :: "process list \<Rightarrow> int \<Rightarrow> nat \<Rightarrow> nat option \<times> int \<Rightarrow> nat option \<times> int" where
  "pick_step ps t i acc =
     (case acc of (pick, best_rem) \<Rightarrow>
        if arrival (ps ! i) \<le> t \<and> remaining (ps ! i) > 0 then
          if remaining (ps ! i) < best_rem then (Some i, remaining (ps ! i))
          else if remaining (ps ! i) = best_rem \<and> pick \<noteq> None then
            if arrival (ps ! i) < arrival (ps ! the pick) \<or>
               (arrival (ps ! i) = arrival (ps ! the pick) \<and> pid (ps ! i) < pid (ps ! the pick))
            then (Some i, best_rem)
            else (pick, best_rem)
          else (pick, best_rem)
        else (pick, best_rem))"

definition srtf_pick :: "process list \<Rightarrow> int \<Rightarrow> nat option" where
  "srtf_pick ps t = fst (fold (pick_step ps t) [0..<length ps] (None, INT_MAX))"

text \<open>The idle scan of sjf.c (lines 126-131).\<close>

definition next_arr_step :: "int \<Rightarrow> process \<Rightarrow> int \<Rightarrow> int" where
  "next_arr_step t p next_arr =
     (if remaining p > 0 \<and> arrival p > t \<and> arrival p < next_arr then arrival p else next_arr)"

definition srtf_next_arrival :: "process list \<Rightarrow> int \<Rightarrow> int" where
  "srtf_next_arrival ps t = fold (next_arr_step t) ps INT_MAX"

text \<open>
  The body of the \<open>while\<close> loop of sjf.c (lines 105-146); \<open>None\<close> is the \<open>break\<close>
  of line 132.
\<close>

definition srtf_run :: "srtf_state \<Rightarrow> nat \<Rightarrow> srtf_state" where
  "srtf_run s k =
     (let ps = sj_procs s; t = sj_clock s;
          sgs = add_segment (sj_segs s) (pid (ps ! k)) t (t + 1);
          ps1 = ps[k := (ps ! k)\<lparr>remaining := remaining (ps ! k) - 1\<rparr>];
          t1 = t + 1;
          ps2 = (if remaining (ps1 ! k) = 0 then ps1[k := (ps1 ! k)\<lparr>completion := t1\<rparr>] else ps1)
      in \<lparr>sj_procs = ps2, sj_segs = sgs, sj_clock = t1\<rparr>)"

definition srtf_idle :: "srtf_state \<Rightarrow> int \<Rightarrow> srtf_state" where
  "srtf_idle s next_arr =
     s\<lparr>sj_segs := add_segment (sj_segs s) (- 1) (sj_clock s) next_arr, sj_clock := next_arr\<rparr>"

definition srtf_iter :: "srtf_state \<Rightarrow> srtf_state option" where
  "srtf_iter s =
     (case srtf_pick (sj_procs s) (sj_clock s) of
        None \<Rightarrow>
          (let next_arr = srtf_next_arrival (sj_procs s) (sj_clock s)
           in if next_arr = INT_MAX then None else Some (srtf_idle s next_arr))
      | Some k \<Rightarrow> Some (srtf_run s k))"

subsection \<open>Termination of the main loop of sjf.c\<close>

text \<open>
  Every pass of the loop either runs a process for one unit, which lowers the total
  remaining time, or jumps the clock to the arrival of an unfinished process, which
  lowers the number of unfinished processes still to arrive, or leaves the loop.
\<close>

definition srtf_work :: "srtf_state \<Rightarrow> nat" where
  "srtf_work s = sum_list (map (\<lambda>p. nat (remaining p)) (sj_procs s))"

definition srtf_pending :: "srtf_state \<Rightarrow> nat" where
  "srtf_pending s = length (filter (\<lambda>p. remaining p > 0 \<and> arrival p > sj_clock s) (sj_procs s))"

text \<open>
  \<open>ready ps t j\<close>: record \<open>j\<close> has arrived by \<open>t\<close> and is unfinished.
  \<open>srtf_before a b\<close>: \<open>a\<close> is not after \<open>b\<close> in the order (remaining, arrival, pid).
\<close>

definition ready :: "process list \<Rightarrow> int \<Rightarrow> nat \<Rightarrow> bool" where
  "ready ps t j = (arrival (ps ! j) \<le> t \<and> remaining (ps ! j) > 0)"

definition srtf_before :: "process \<Rightarrow> process \<Rightarrow> bool" where
  "srtf_before a b =
     (remaining a < remaining b \<or>
      (remaining a = remaining b \<and>
        (arrival a < arrival b \<or> (arrival a = arrival b \<and> pid a \<le> pid b))))"

definition pick_inv :: "process list \<Rightarrow> int \<Rightarrow> nat \<Rightarrow> nat option \<times> int \<Rightarrow> bool" where
  "pick_inv ps t k acc =
     (case acc of (pick, best_rem) \<Rightarrow>
        (case pick of
           None \<Rightarrow> best_rem = INT_MAX \<and> (\<forall>j<k. ready ps t j \<longrightarrow> INT_MAX \<le> remaining (ps ! j))
         | Some i \<Rightarrow> i < k \<and> ready ps t i \<and> best_rem = remaining (ps ! i) \<and> best_rem < INT_MAX \<and>
                     (\<forall>j<k. ready ps t j \<longrightarrow> srtf_before (ps ! i) (ps ! j))))"

lemma pick_inv_step:
  assumes "pick_inv ps t k acc"
  shows "pick_inv ps t (Suc k) (pick_step ps t k acc)"
proof (cases acc)
  case (Pair pick best)
  show ?thesis
  proof (cases pick)
    case None
    with Pair assms show ?thesis
      by (auto simp: pick_inv_def pick_step_def ready_def srtf_before_def less_Suc_eq)
  next
    case (Some i)
    with Pair assms show ?thesis
      by (fastforce simp: pick_inv_def pick_step_def ready_def srtf_before_def less_Suc_eq)
  qed
qed

lemma pick_inv_fold:
  "pick_inv ps t k (fold (pick_step ps t) [0..<k] (None, INT_MAX))"
proof (induction k)
  case 0
  show ?case by (simp add: pick_inv_def)
next
  case (Suc k)
  then show ?case by (simp add: pick_inv_step)
qed

lemma srtf_pick_Some:
  assumes "srtf_pick ps t = Some i"
  shows "i < length ps \<and> ready ps t i \<and> remaining (ps ! i) < INT_MAX \<and>
         (\<forall>j<length ps. ready ps t j \<longrightarrow> srtf_before (ps ! i) (ps ! j))"
  using pick_inv_fold[of ps t "length ps"] assms
  by (cases "fold (pick_step ps t) [0..<length ps] (None, INT_MAX)")
     (auto simp: srtf_pick_def pick_inv_def)

lemma srtf_pick_None:
  assumes "srtf_pick ps t = None"
  shows "\<forall>j<length ps. ready ps t j \<longrightarrow> INT_MAX \<le> remaining (ps ! j)"
  using pick_inv_fold[of ps t "length ps"] assms
  by (cases "fold (pick_step ps t) [0..<length ps] (None, INT_MAX)")
     (auto simp: srtf_pick_def pick_inv_def)

lemma next_arr_fold:
  "fold (next_arr_step t) ps a = b \<Longrightarrow>
     (b = a \<or> (\<exists>p\<in>set ps. remaining p > 0 \<and> arrival p > t \<and> arrival p = b)) \<and> b \<le> a \<and>
     (\<forall>p\<in>set ps. remaining p > 0 \<and> arrival p > t \<longrightarrow> b \<le> arrival p)"
proof (induction ps arbitrary: a)
  case Nil
  then show ?case by simp
next
  case (Cons p ps)
  from Cons.IH[of "next_arr_step t p a"] Cons.prems
  show ?case
    by (auto simp: next_arr_step_def split: if_splits)
qed

lemma filter_length_le:
  "(\<And>x. x \<in> set xs \<Longrightarrow> Q x \<Longrightarrow> P x) \<Longrightarrow> length (filter Q xs) \<le> length (filter P xs)"
  by (induction xs) auto

lemma filter_length_less:
  assumes "\<And>x. x \<in> set xs \<Longrightarrow> Q x \<Longrightarrow> P x" "x \<in> set xs" "P x" "\<not> Q x"
  shows "length (filter Q xs) < length (filter P xs)"
  using assms
proof (induction xs)
  case Nil
  then show ?case by simp
next
  case (Cons y ys)
  have le: "length (filter Q ys) \<le> length (filter P ys)"
    by (rule filter_length_le) (use Cons.prems(1) in auto)
  show ?case
  proof (cases "x = y")
    case True
    with Cons.prems le show ?thesis by auto
  next
    case False
    with Cons show ?thesis by auto
  qed
qed

lemma srtf_idle_decreases:
  assumes "srtf_next_arrival (sj_procs s) (sj_clock s) = a" "a \<noteq> INT_MAX"
  shows "srtf_work (srtf_idle s a) = srtf_work s \<and> srtf_pending (srtf_idle s a) < srtf_pending s"
proof -
  from next_arr_fold[OF assms(1)[unfolded srtf_next_arrival_def]] assms(2)
  obtain p where p: "p \<in> set (sj_procs s)" "remaining p > 0" "arrival p > sj_clock s" "arrival p = a"
    by auto
  have "length (filter (\<lambda>p. remaining p > 0 \<and> arrival p > a) (sj_procs s))
        < length (filter (\<lambda>p. remaining p > 0 \<and> arrival p > sj_clock s) (sj_procs s))"
    by (rule filter_length_less[where x = p]) (use p in auto)
  then show ?thesis
    by (simp add: srtf_work_def srtf_pending_def srtf_idle_def)
qed

lemma sum_list_nat_update:
  fixes f :: "'a \<Rightarrow> nat"
  assumes "k < length xs" "f y < f (xs ! k)"
  shows "sum_list (map f (xs[k := y])) < sum_list (map f xs)"
  using assms
proof (induction xs arbitrary: k)
  case Nil
  then show ?case by simp
next
  case (Cons x xs)
  then show ?case by (cases k) auto
qed

lemma sum_list_nat_update_eq:
  fixes f :: "'a \<Rightarrow> nat"
  assumes "f y = f (xs ! k)"
  shows "sum_list (map f (xs[k := y])) = sum_list (map f xs)"
proof (cases "k < length xs")
  case True
  with assms show ?thesis
  proof (induction xs arbitrary: k)
    case Nil
    then show ?case by simp
  next
    case (Cons x xs)
    then show ?case by (cases k) auto
  qed
next
  case False
  then have "xs[k := y] = xs" by (simp add: list_update_beyond)
  then show ?thesis by simp
qed

lemma srtf_run_decreases:
  assumes "k < length (sj_procs s)" "remaining (sj_procs s ! k) > 0"
  shows "srtf_work (srtf_run s k) < srtf_work s"
proof -
  let ?ps = "sj_procs s"
  let ?ps1 = "?ps[k := (?ps ! k)\<lparr>remaining := remaining (?ps ! k) - 1\<rparr>]"
  have 1: "sum_list (map (\<lambda>p. nat (remaining p)) ?ps1) < sum_list (map (\<lambda>p. nat (remaining p)) ?ps)"
    by (rule sum_list_nat_update) (use assms in auto)
  have 2: "sum_list (map (\<lambda>p. nat (remaining p)) (?ps1[k := (?ps1 ! k)\<lparr>completion := c\<rparr>]))
         = sum_list (map (\<lambda>p. nat (remaining p)) ?ps1)" for c
    by (rule sum_list_nat_update_eq) simp
  show ?thesis
    using 1 2 by (simp add: srtf_work_def srtf_run_def Let_def)
qed

lemma srtf_iter_decreases:
  assumes "srtf_iter s = Some s'"
  shows "(s', s) \<in> measures [srtf_work, srtf_pending]"
proof (cases "srtf_pick (sj_procs s) (sj_clock s)")
  case None
  with assms have ne: "srtf_next_arrival (sj_procs s) (sj_clock s) \<noteq> INT_MAX"
    and s': "s' = srtf_idle s (srtf_next_arrival (sj_procs s) (sj_clock s))"
    by (auto simp: srtf_iter_def Let_def split: if_splits)
  from srtf_idle_decreases[OF refl ne] s' show ?thesis by simp
next
  case (Some k)
  with assms have s': "s' = srtf_run s k" by (simp add: srtf_iter_def)
  from srtf_pick_Some[OF Some] have "k < length (sj_procs s)" "remaining (sj_procs s ! k) > 0"
    by (auto simp: ready_def)
  from srtf_run_decreases[OF this] s' show ?thesis by simp
qed

text \<open>The \<open>while (!all_done(p, n))\<close> loop of sjf.c.\<close>

function srtf_loop :: "srtf_state \<Rightarrow> srtf_state" where
  "srtf_loop s =
     (if all_done (sj_procs s) then s
      else case srtf_iter s of None \<Rightarrow> s | Some s' \<Rightarrow> srtf_loop s')"
  by pat_completeness auto
termination
proof (relation "measures [srtf_work, srtf_pending]")
  show "wf (measures [srtf_work, srtf_pending])" by simp
next
  fix s s'
  assume "srtf_iter s = Some s'"
  then show "(s', s) \<in> measures [srtf_work, srtf_pending]"
    by (rule srtf_iter_decreases)
qed

declare srtf_loop.simps [simp del]

section \<open>rr.c: round robin\<close>

subsection \<open>The circular queue of process indices\<close>

text \<open>
  The struct \<open>Queue\<close>.  Its fields never hold a negative value, so they are natural
  numbers.  Here \<open>malloc\<close> succeeds (its failure is part of \<open>q_init_m\<close> and
  \<open>q_push_m\<close> below); the cells it returns hold no defined value and are modelled as 0
  (no cell is read before it is written).
\<close>

record queue =
  q_data :: "nat list"
  q_cap :: nat
  q_head :: nat
  q_tail :: nat
  q_size :: nat

definition q_init :: "nat \<Rightarrow> queue" where
  "q_init cap = \<lparr>q_data = replicate cap 0, q_cap = cap, q_head = 0, q_tail = 0, q_size = 0\<rparr>"

definition q_empty :: "queue \<Rightarrow> bool" where
  "q_empty q = (q_size q = 0)"

text \<open>The growth step of \<open>q_push\<close> (taken when the queue is full).\<close>

definition q_grow :: "queue \<Rightarrow> queue" where
  "q_grow q =
     (let newcap = q_cap q * 2;
          nd = map (\<lambda>i. q_data q ! ((q_head q + i) mod q_cap q)) [0..<q_size q]
               @ replicate (newcap - q_size q) 0
      in \<lparr>q_data = nd, q_cap = newcap, q_head = 0, q_tail = q_size q, q_size = q_size q\<rparr>)"

definition q_push :: "queue \<Rightarrow> nat \<Rightarrow> queue" where
  "q_push q v =
     (let q1 = (if q_size q = q_cap q then q_grow q else q)
      in q1\<lparr>q_data := (q_data q1)[q_tail q1 := v],
            q_tail := (q_tail q1 + 1) mod q_cap q1,
            q_size := q_size q1 + 1\<rparr>)"

definition q_pop :: "queue \<Rightarrow> nat \<times> queue" where
  "q_pop q =
     (q_data q ! q_head q,
      q\<lparr>q_head := (q_head q + 1) mod q_cap q, q_size := q_size q - 1\<rparr>)"

subsection \<open>The simulation\<close>

record rr_state =
  rr_procs :: "rr_process list"
  rr_segs :: "segment list"
  rr_queue :: queue
  rr_clock :: int

text \<open>\<open>enqueue_arrivals\<close>: one pass of its loop at index \<open>i\<close>, and the whole scan.\<close>

definition enqueue_step :: "int \<Rightarrow> nat \<Rightarrow> rr_process list \<times> queue \<Rightarrow> rr_process list \<times> queue" where
  "enqueue_step t i acc =
     (case acc of (ps, q) \<Rightarrow>
        if \<not> enqueued (ps ! i) \<and> arrival (ps ! i) \<le> t
        then (ps[i := (ps ! i)\<lparr>enqueued := True\<rparr>], q_push q i)
        else (ps, q))"

definition enqueue_arrivals :: "rr_process list \<Rightarrow> queue \<Rightarrow> int \<Rightarrow> rr_process list \<times> queue" where
  "enqueue_arrivals ps q t = fold (enqueue_step t) [0..<length ps] (ps, q)"

text \<open>The scan for the earliest arrival before the loop (rr.c lines 168-171).\<close>

definition earliest_arrival :: "rr_process list \<Rightarrow> int" where
  "earliest_arrival ps =
     fold (\<lambda>p earliest. if arrival p < earliest then arrival p else earliest) (tl ps) (arrival (ps ! 0))"

text \<open>The scan of the idle branch (rr.c lines 182-187); \<open>-1\<close> is "none found".\<close>

definition rr_next_step :: "rr_process \<Rightarrow> int \<Rightarrow> int" where
  "rr_next_step p next_arr =
     (if remaining p > 0 \<and> \<not> enqueued p
      then (if next_arr = - 1 \<or> arrival p < next_arr then arrival p else next_arr)
      else next_arr)"

definition rr_next_arrival :: "rr_process list \<Rightarrow> int" where
  "rr_next_arrival ps = fold rr_next_step ps (- 1)"

text \<open>
  One pass of the inner loop (rr.c lines 204-206), and the loop itself with its
  \<open>break\<close>; the first argument of \<open>rr_slice\<close> counts the passes still allowed.
\<close>

definition rr_tick :: "nat \<Rightarrow> rr_state \<Rightarrow> rr_state" where
  "rr_tick idx s =
     (let t1 = rr_clock s + 1;
          ps1 = (rr_procs s)[idx := (rr_procs s ! idx)\<lparr>remaining := remaining (rr_procs s ! idx) - 1\<rparr>];
          r = enqueue_arrivals ps1 (rr_queue s) t1
      in s\<lparr>rr_procs := fst r, rr_queue := snd r, rr_clock := t1\<rparr>)"

fun rr_slice :: "nat \<Rightarrow> nat \<Rightarrow> rr_state \<Rightarrow> rr_state" where
  "rr_slice 0 idx s = s"
| "rr_slice (Suc k) idx s =
     (let s1 = rr_tick idx s
      in if remaining (rr_procs s1 ! idx) = 0 then s1 else rr_slice k idx s1)"

text \<open>
  The branches of the loop body (rr.c lines 180-218): the idle jump, and the dispatch of
  the popped index \<open>idx\<close>, which runs the slice (lines 199-209) and then records the
  segment and either stamps the completion time or requeues (\<open>rr_finish\<close>, lines 210-218).
\<close>

definition rr_idle :: "rr_state \<Rightarrow> int \<Rightarrow> rr_state" where
  "rr_idle s next_arr =
     (let sgs = (if next_arr > rr_clock s
                 then add_segment (rr_segs s) (- 1) (rr_clock s) next_arr else rr_segs s);
          r = enqueue_arrivals (rr_procs s) (rr_queue s) next_arr
      in \<lparr>rr_procs = fst r, rr_segs = sgs, rr_queue = snd r, rr_clock = next_arr\<rparr>)"

definition rr_finish :: "nat \<Rightarrow> int \<Rightarrow> rr_state \<Rightarrow> rr_state" where
  "rr_finish idx start s =
     (let s2 = s\<lparr>rr_segs := add_segment (rr_segs s) (pid (rr_procs s ! idx)) start (rr_clock s)\<rparr>
      in if remaining (rr_procs s2 ! idx) = 0
         then s2\<lparr>rr_procs := (rr_procs s2)[idx := (rr_procs s2 ! idx)\<lparr>completion := rr_clock s2\<rparr>]\<rparr>
         else s2\<lparr>rr_queue := q_push (rr_queue s2) idx\<rparr>)"

definition rr_dispatch :: "int \<Rightarrow> nat \<Rightarrow> rr_state \<Rightarrow> rr_state" where
  "rr_dispatch quantum idx s =
     (let slice = (if remaining (rr_procs s ! idx) < quantum
                   then remaining (rr_procs s ! idx) else quantum);
          start = rr_clock s
      in rr_finish idx start (rr_slice (nat slice) idx s))"

text \<open>\<open>None\<close> is the \<open>break\<close> of line 188.\<close>

definition rr_iter :: "int \<Rightarrow> rr_state \<Rightarrow> rr_state option" where
  "rr_iter quantum s =
     (if q_empty (rr_queue s) then
        (let next_arr = rr_next_arrival (rr_procs s)
         in if next_arr = - 1 then None else Some (rr_idle s next_arr))
      else
        (let r = q_pop (rr_queue s); idx = fst r; s1 = s\<lparr>rr_queue := snd r\<rparr>
         in if remaining (rr_procs s1 ! idx) \<le> 0 then Some s1
            else Some (rr_dispatch quantum idx s1)))"

text \<open>
  The \<open>while (!all_done(p, n))\<close> loop of rr.c.  With a quantum that is not positive
  the C loop does not end, so the loop is a partial function: \<open>None\<close> is "does not return".
\<close>

partial_function (option) rr_loop :: "int \<Rightarrow> rr_state \<Rightarrow> rr_state option" where
  "rr_loop quantum s =
     (if all_done (rr_procs s) then Some s
      else case rr_iter quantum s of None \<Rightarrow> Some s | Some s' \<Rightarrow> rr_loop quantum s')"

declare rr_loop.simps [code]

text \<open>The state at the head of the loop (rr.c lines 159-177).\<close>

definition rr_init :: "rr_process list \<Rightarrow> rr_state" where
  "rr_init ps =
     (let n = length ps;
          q = q_init (if n > 4 then n else 4);
          earliest = earliest_arrival ps;
          sgs = (if earliest > 0 then add_segment [] (- 1) 0 earliest else []);
          t = (if earliest > 0 then earliest else 0);
          r = enqueue_arrivals ps q t
      in \<lparr>rr_procs = fst r, rr_segs = sgs, rr_queue = snd r, rr_clock = t\<rparr>)"

section \<open>Metrics and the two \<open>main\<close> functions\<close>

text \<open>
  The metrics loop (rr.c lines 222-230, sjf.c lines 150-158).  The two averages are C
  \<open>double\<close>s; they are modelled by exact reals, and \<open>%.2f\<close> by rounding to hundredths.
\<close>

definition set_metrics :: "'a process_scheme \<Rightarrow> 'a process_scheme" where
  "set_metrics p =
     (let p1 = p\<lparr>turnaround := completion p - arrival p\<rparr>
      in p1\<lparr>waiting := turnaround p1 - burst p1\<rparr>)"

record 'p report =
  rp_segs :: "segment list"
  rp_procs :: "'p list"
  rp_avg_wait :: real
  rp_avg_tat :: real

definition make_report :: "segment list \<Rightarrow> 'a process_scheme list \<Rightarrow> 'a process_scheme report" where
  "make_report sgs ps =
     (let ps1 = map set_metrics ps;
          n = length ps
      in \<lparr>rp_segs = sgs, rp_procs = ps1,
          rp_avg_wait = fold (\<lambda>p a. a + of_int (waiting p)) ps1 0 / of_nat n,
          rp_avg_tat = fold (\<lambda>p a. a + of_int (turnaround p)) ps1 0 / of_nat n\<rparr>)"

definition hundredths :: "real \<Rightarrow> int" where
  "hundredths x = round (x * 100)"

text \<open>The simulation and the report for an already validated table.\<close>

definition rr_simulate :: "int \<Rightarrow> rr_process list \<Rightarrow> rr_process report option" where
  "rr_simulate quantum ps =
     map_option (\<lambda>s. make_report (rr_segs s) (rr_procs s)) (rr_loop quantum (rr_init ps))"

definition srtf_init :: "process list \<Rightarrow> srtf_state" where
  "srtf_init ps = \<lparr>sj_procs = ps, sj_segs = [], sj_clock = 0\<rparr>"

definition srtf_simulate :: "process list \<Rightarrow> process report" where
  "srtf_simulate ps = (let s = srtf_loop (srtf_init ps) in make_report (sj_segs s) (sj_procs s))"

subsection \<open>Reading and validating the input\<close>

text \<open>
  Standard input is the sequence of what successive \<open>%d\<close> conversions of \<open>scanf\<close> find:
  an integer, or something that is not one (\<open>Junk\<close>); the end of the list is the end of
  the input.  Each rejected input is one \<open>error\<close>, after which \<open>main\<close> returns 1.
\<close>

datatype token = Num int | Junk

datatype error = InvalidN | InvalidQuantum | InvalidLine | InvalidArrivalBurst

fun scan_int :: "token list \<Rightarrow> (int \<times> token list) option" where
  "scan_int (Num v # ts) = Some (v, ts)"
| "scan_int _ = None"

fun scan_line :: "token list \<Rightarrow> ((int \<times> int \<times> int) \<times> token list) option" where
  "scan_line (Num a # Num b # Num c # ts) = Some ((a, b, c), ts)"
| "scan_line _ = None"

text \<open>
  The record the read loop builds from one accepted line \<open>pid arrival burst\<close>
  (\<open>calloc\<close> zeroes the fields the loop does not set).
\<close>

definition new_process :: "int \<times> int \<times> int \<Rightarrow> process" where
  "new_process l =
     (case l of (a, b, c) \<Rightarrow>
        \<lparr>pid = a, arrival = b, burst = c, remaining = c, completion = - 1,
         waiting = 0, turnaround = 0\<rparr>)"

definition rr_new_process :: "int \<times> int \<times> int \<Rightarrow> rr_process" where
  "rr_new_process l =
     (case l of (a, b, c) \<Rightarrow>
        \<lparr>pid = a, arrival = b, burst = c, remaining = c, completion = - 1,
         waiting = 0, turnaround = 0, enqueued = False\<rparr>)"

text \<open>The read loop of sjf.c (lines 84-98); the count is the number of lines still to read.\<close>

fun read_procs :: "nat \<Rightarrow> token list \<Rightarrow> error + process list" where
  "read_procs 0 ts = Inr []"
| "read_procs (Suc k) ts =
     (case scan_line ts of
        None \<Rightarrow> Inl InvalidLine
      | Some ((a, b, c), ts') \<Rightarrow>
          if b < 0 \<or> c \<le> 0 then Inl InvalidArrivalBurst
          else (case read_procs k ts' of
                  Inl e \<Rightarrow> Inl e
                | Inr ps \<Rightarrow> Inr (new_process (a, b, c) # ps)))"

text \<open>The read loop of rr.c (lines 142-157).\<close>

fun rr_read_procs :: "nat \<Rightarrow> token list \<Rightarrow> error + rr_process list" where
  "rr_read_procs 0 ts = Inr []"
| "rr_read_procs (Suc k) ts =
     (case scan_line ts of
        None \<Rightarrow> Inl InvalidLine
      | Some ((a, b, c), ts') \<Rightarrow>
          if b < 0 \<or> c \<le> 0 then Inl InvalidArrivalBurst
          else (case rr_read_procs k ts' of
                  Inl e \<Rightarrow> Inl e
                | Inr ps \<Rightarrow> Inr (rr_new_process (a, b, c) # ps)))"

text \<open>
  \<open>main\<close> of sjf.c: \<open>Inl e\<close> is "message \<open>e\<close> on stderr, status 1, nothing else printed";
  \<open>Inr r\<close> is "report \<open>r\<close> printed, status 0".  Here \<open>calloc\<close> succeeds; its failure is
  part of \<open>srtf_main_m\<close> and \<open>rr_main_m\<close> below.
\<close>

definition srtf_main :: "token list \<Rightarrow> error + process report" where
  "srtf_main ts =
     (case scan_int ts of
        None \<Rightarrow> Inl InvalidN
      | Some (n, ts1) \<Rightarrow>
          if n \<le> 0 then Inl InvalidN
          else (case read_procs (nat n) ts1 of
                  Inl e \<Rightarrow> Inl e
                | Inr ps \<Rightarrow> Inr (srtf_simulate ps)))"

text \<open>\<open>main\<close> of rr.c; the outer \<open>None\<close> is "does not return".\<close>

definition rr_main :: "token list \<Rightarrow> (error + rr_process report) option" where
  "rr_main ts =
     (case scan_int ts of
        None \<Rightarrow> Some (Inl InvalidN)
      | Some (n, ts1) \<Rightarrow>
          if n \<le> 0 then Some (Inl InvalidN)
          else (case scan_int ts1 of
                  None \<Rightarrow> Some (Inl InvalidQuantum)
                | Some (quantum, ts2) \<Rightarrow>
                    if quantum \<le> 0 then Some (Inl InvalidQuantum)
                    else (case rr_read_procs (nat n) ts2 of
                            Inl e \<Rightarrow> Some (Inl e)
                          | Inr ps \<Rightarrow> map_option Inr (rr_simulate quantum ps))))"

definition exit_status :: "'e + 'r \<Rightarrow> int" where
  "exit_status r = (case r of Inl e \<Rightarrow> 1 | Inr x \<Rightarrow> 0)"

section \<open>Properties of the timeline\<close>

fun chain_from :: "int \<Rightarrow> segment list \<Rightarrow> bool" where
  "chain_from a [] = True"
| "chain_from a (s # ss) = (s_start s = a \<and> a < s_end s \<and> chain_from (s_end s) ss)"

definition end_of :: "int \<Rightarrow> segment list \<Rightarrow> int" where
  "end_of a sgs = (if sgs = [] then a else s_end (last sgs))"

fun no_adjacent :: "segment list \<Rightarrow> bool" where
  "no_adjacent (a # b # ss) = (s_pid a \<noteq> s_pid b \<and> no_adjacent (b # ss))"
| "no_adjacent ss = True"

definition busy_time :: "segment list \<Rightarrow> int" where
  "busy_time sgs = sum_list (map (\<lambda>s. s_end s - s_start s) (filter (\<lambda>s. s_pid s \<noteq> - 1) sgs))"

lemma end_of_simps [simp]:
  "end_of a [] = a" "end_of a (s # ss) = end_of (s_end s) ss"
  by (simp_all add: end_of_def)

lemma end_of_append [simp]: "end_of a (xs @ ys) = end_of (end_of a xs) ys"
  by (induction xs arbitrary: a) simp_all

lemma chain_from_append:
  "chain_from a (xs @ ys) = (chain_from a xs \<and> chain_from (end_of a xs) ys)"
  by (induction xs arbitrary: a) auto

lemma chain_from_le: "chain_from a sgs \<Longrightarrow> a \<le> end_of a sgs"
  by (induction sgs arbitrary: a) force+

lemma no_adjacent_Cons:
  "no_adjacent (x # ys) = (ys = [] \<or> (s_pid x \<noteq> s_pid (hd ys) \<and> no_adjacent ys))"
  by (cases ys) auto

lemma no_adjacent_append:
  "no_adjacent (xs @ ys) =
     (no_adjacent xs \<and> no_adjacent ys \<and> (xs = [] \<or> ys = [] \<or> s_pid (last xs) \<noteq> s_pid (hd ys)))"
proof (induction xs)
  case Nil
  then show ?case by simp
next
  case (Cons x xs)
  then show ?case
    by (cases xs) (auto simp: no_adjacent_Cons)
qed

lemma add_segment_chain:
  assumes "chain_from a sgs" "end_of a sgs = st" "st < en"
  shows "chain_from a (add_segment sgs p st en) \<and> end_of a (add_segment sgs p st en) = en"
proof (cases "sgs = []")
  case True
  with assms show ?thesis by (simp add: add_segment_def)
next
  case False
  then obtain xs x where sgs: "sgs = xs @ [x]" by (metis append_butlast_last_id)
  with assms have "chain_from a xs" "s_start x = end_of a xs" "s_start x < s_end x" "s_end x = st"
    by (auto simp: chain_from_append)
  with assms(3) sgs show ?thesis
    by (auto simp: add_segment_def chain_from_append)
qed

lemma add_segment_no_adjacent:
  assumes "no_adjacent sgs" "end_of a sgs = st"
  shows "no_adjacent (add_segment sgs p st en)"
proof (cases "sgs = []")
  case True
  then show ?thesis by (simp add: add_segment_def)
next
  case False
  then obtain xs x where sgs: "sgs = xs @ [x]" by (metis append_butlast_last_id)
  with assms show ?thesis
    by (auto simp: add_segment_def no_adjacent_append)
qed

lemma busy_time_add_segment:
  "busy_time (add_segment sgs p st en) = busy_time sgs + (if p = - 1 then 0 else en - st)"
proof (cases "sgs = []")
  case True
  then show ?thesis by (simp add: add_segment_def busy_time_def)
next
  case False
  then obtain xs x where sgs: "sgs = xs @ [x]" by (metis append_butlast_last_id)
  then show ?thesis
    by (auto simp: add_segment_def busy_time_def)
qed

lemma chain_from_union:
  "chain_from a sgs \<Longrightarrow> (\<Union>s\<in>set sgs. {s_start s..<s_end s}) = {a..<end_of a sgs}"
proof (induction sgs arbitrary: a)
  case Nil
  then show ?case by simp
next
  case (Cons s ss)
  then have le: "s_end s \<le> end_of (s_end s) ss" and lt: "a < s_end s" and a: "s_start s = a"
    by (simp_all add: chain_from_le)
  from Cons have "(\<Union>x\<in>set ss. {s_start x..<s_end x}) = {s_end s..<end_of (s_end s) ss}"
    by simp
  then have "(\<Union>x\<in>set (s # ss). {s_start x..<s_end x})
      = {a..<s_end s} \<union> {s_end s..<end_of (s_end s) ss}"
    using a by simp
  also have "\<dots> = {a..<end_of (s_end s) ss}"
    using le lt by auto
  finally show ?case by simp
qed

lemma chain_from_starts_ge: "chain_from a sgs \<Longrightarrow> s \<in> set sgs \<Longrightarrow> a \<le> s_start s"
proof (induction sgs arbitrary: a)
  case Nil
  then show ?case by simp
next
  case (Cons x xs)
  then show ?case by force
qed

lemma chain_from_disjoint:
  "chain_from a sgs \<Longrightarrow> sorted_wrt (\<lambda>x y. s_end x \<le> s_start y) sgs"
proof (induction sgs arbitrary: a)
  case Nil
  then show ?case by simp
next
  case (Cons x xs)
  then show ?case by (auto dest: chain_from_starts_ge)
qed

lemma chain_from_sorted:
  "chain_from a sgs \<Longrightarrow> sorted (map s_start sgs)"
proof (induction sgs arbitrary: a)
  case Nil
  then show ?case by simp
next
  case (Cons x xs)
  then show ?case by (force dest: chain_from_starts_ge)
qed

lemma all_done_iff: "all_done ps = (\<forall>p\<in>set ps. remaining p \<le> 0)"
  by (induction ps) auto

lemma sum_list_int_update:
  fixes f :: "'a \<Rightarrow> int"
  assumes "k < length xs"
  shows "sum_list (map f (xs[k := y])) = sum_list (map f xs) - f (xs ! k) + f y"
  using assms
proof (induction xs arbitrary: k)
  case Nil
  then show ?case by simp
next
  case (Cons x xs)
  then show ?case by (cases k) auto
qed

section \<open>Invariants of the two simulations\<close>

text \<open>
  The input of a run is the list of its lines \<open>(pid, arrival, burst)\<close>.  It is valid when
  it is not empty and every line has \<open>arrival \<ge> 0\<close> and \<open>burst > 0\<close>; these are the tables
  the read loops accept.

  \<open>proc_ok l t p\<close>: at clock \<open>t\<close> the record \<open>p\<close> built from line \<open>l\<close> still has the
  fields of \<open>l\<close>, its remaining time is within \<open>[0, burst]\<close>, the units it has run lie
  between its arrival and \<open>t\<close>, and if it is finished its completion time is stamped.
  \<open>done_work\<close>: the units of CPU time consumed so far.
  \<open>timeline_ok inp sgs t w\<close>: the segments tile \<open>[0, t)\<close> in order, neighbours have
  different owners, and (when no pid is the IDLE value) the non-idle time is \<open>w\<close>.
\<close>

definition valid_input :: "(int \<times> int \<times> int) list \<Rightarrow> bool" where
  "valid_input inp = (inp \<noteq> [] \<and> list_all (\<lambda>l. case l of (a, b, c) \<Rightarrow> 0 \<le> b \<and> 0 < c) inp)"

definition proc_ok :: "int \<times> int \<times> int \<Rightarrow> int \<Rightarrow> 'a process_scheme \<Rightarrow> bool" where
  "proc_ok l t p =
     (case l of (a, b, c) \<Rightarrow>
        pid p = a \<and> arrival p = b \<and> burst p = c \<and> 0 \<le> b \<and> 0 < c \<and>
        0 \<le> remaining p \<and> remaining p \<le> c \<and>
        (remaining p < c \<longrightarrow> b + (c - remaining p) \<le> t) \<and>
        (remaining p = 0 \<longrightarrow> b + c \<le> completion p \<and> completion p \<le> t))"

definition done_work :: "'a process_scheme list \<Rightarrow> int" where
  "done_work ps = sum_list (map (\<lambda>p. burst p - remaining p) ps)"

definition timeline_ok :: "(int \<times> int \<times> int) list \<Rightarrow> segment list \<Rightarrow> int \<Rightarrow> int \<Rightarrow> bool" where
  "timeline_ok inp sgs t w =
     (chain_from 0 sgs \<and> end_of 0 sgs = t \<and> no_adjacent sgs \<and>
      (list_all (\<lambda>l. fst l \<noteq> - 1) inp \<longrightarrow> busy_time sgs = w))"

definition srtf_inv :: "(int \<times> int \<times> int) list \<Rightarrow> srtf_state \<Rightarrow> bool" where
  "srtf_inv inp s =
     (length (sj_procs s) = length inp \<and>
      (\<forall>i<length inp. proc_ok (inp ! i) (sj_clock s) (sj_procs s ! i)) \<and>
      (all_done (sj_procs s) \<longrightarrow> (\<exists>p\<in>set (sj_procs s). completion p = sj_clock s)) \<and>
      timeline_ok inp (sj_segs s) (sj_clock s) (done_work (sj_procs s)))"

lemma proc_ok_mono: "proc_ok l t p \<Longrightarrow> t \<le> t' \<Longrightarrow> proc_ok l t' p"
  by (auto simp: proc_ok_def)

lemma proc_ok_new: "0 \<le> fst (snd l) \<Longrightarrow> 0 < snd (snd l) \<Longrightarrow> proc_ok l t (new_process l)"
  by (auto simp: proc_ok_def new_process_def split: prod.splits)

lemma valid_input_nth:
  "valid_input inp \<Longrightarrow> i < length inp \<Longrightarrow> 0 \<le> fst (snd (inp ! i)) \<and> 0 < snd (snd (inp ! i))"
  by (cases "inp ! i") (auto simp: valid_input_def list_all_length)

lemma done_work_new: "done_work (map new_process inp) = 0"
  by (induction inp) (auto simp: done_work_def new_process_def)

lemma not_all_done_new: "valid_input inp \<Longrightarrow> \<not> all_done (map new_process inp)"
  by (cases inp) (auto simp: valid_input_def new_process_def)

lemma srtf_inv_init:
  assumes "valid_input inp"
  shows "srtf_inv inp (srtf_init (map new_process inp))"
  using assms valid_input_nth[OF assms]
  by (simp add: srtf_inv_def srtf_init_def proc_ok_new not_all_done_new timeline_ok_def
      done_work_new busy_time_def)

lemma timeline_ok_add:
  assumes "timeline_ok inp sgs t w" "t < t'" "list_all (\<lambda>l. fst l \<noteq> - 1) inp \<Longrightarrow> p \<noteq> - 1"
  shows "timeline_ok inp (add_segment sgs p t t') t' (w + (t' - t))"
  using assms add_segment_chain[of 0 sgs t t' p] add_segment_no_adjacent[of sgs 0 t p t']
  by (auto simp: timeline_ok_def busy_time_add_segment)

lemma timeline_ok_idle:
  assumes "timeline_ok inp sgs t w" "t < t'"
  shows "timeline_ok inp (add_segment sgs (- 1) t t') t' w"
  using assms add_segment_chain[of 0 sgs t t' "- 1"] add_segment_no_adjacent[of sgs 0 t "- 1" t']
  by (auto simp: timeline_ok_def busy_time_add_segment)

lemma srtf_run_fields:
  assumes "k < length (sj_procs s)"
  shows "sj_clock (srtf_run s k) = sj_clock s + 1"
    and "sj_segs (srtf_run s k) = add_segment (sj_segs s) (pid (sj_procs s ! k)) (sj_clock s) (sj_clock s + 1)"
    and "sj_procs (srtf_run s k) =
           (sj_procs s)[k := (sj_procs s ! k)\<lparr>remaining := remaining (sj_procs s ! k) - 1,
              completion := (if remaining (sj_procs s ! k) = 1 then sj_clock s + 1
                             else completion (sj_procs s ! k))\<rparr>]"
  using assms by (simp_all add: srtf_run_def Let_def)

lemma done_work_update:
  assumes "k < length ps" "burst q = burst (ps ! k)" "remaining q = remaining (ps ! k) - 1"
  shows "done_work (ps[k := q]) = done_work ps + 1"
  using assms by (simp add: done_work_def sum_list_int_update)

lemma srtf_inv_run:
  assumes inv: "srtf_inv inp s" and k: "k < length (sj_procs s)"
    and rdy: "ready (sj_procs s) (sj_clock s) k"
  shows "srtf_inv inp (srtf_run s k)"
proof -
  let ?ps = "sj_procs s" and ?t = "sj_clock s"
  let ?q = "(?ps ! k)\<lparr>remaining := remaining (?ps ! k) - 1,
              completion := (if remaining (?ps ! k) = 1 then ?t + 1 else completion (?ps ! k))\<rparr>"
  note f = srtf_run_fields[OF k]
  from inv have len: "length ?ps = length inp"
    and ok: "\<And>i. i < length inp \<Longrightarrow> proc_ok (inp ! i) ?t (?ps ! i)"
    and tl: "timeline_ok inp (sj_segs s) ?t (done_work ?ps)"
    by (auto simp: srtf_inv_def)
  have ok': "proc_ok (inp ! i) (?t + 1) (?ps[k := ?q] ! i)" if "i < length inp" for i
  proof (cases "i = k")
    case True
    with ok[OF that] rdy k show ?thesis
      by (auto simp: proc_ok_def ready_def split: prod.splits)
  next
    case False
    with proc_ok_mono[OF ok[OF that], of "?t + 1"] show ?thesis by simp
  qed
  have dw: "done_work (?ps[k := ?q]) = done_work ?ps + 1"
    by (rule done_work_update) (use k in auto)
  have pidk: "list_all (\<lambda>l. fst l \<noteq> - 1) inp \<Longrightarrow> pid (?ps ! k) \<noteq> - 1"
    using ok[of k] k len by (auto simp: list_all_length proc_ok_def split: prod.splits)
  have tl': "timeline_ok inp (sj_segs (srtf_run s k)) (?t + 1) (done_work (?ps[k := ?q]))"
    using timeline_ok_add[OF tl, of "?t + 1" "pid (?ps ! k)"] pidk
    by (simp add: f dw)
  have fin: "\<exists>p\<in>set (?ps[k := ?q]). completion p = ?t + 1" if "all_done (?ps[k := ?q])"
  proof -
    from that k have "remaining ?q \<le> 0"
      by (auto simp: all_done_iff set_conv_nth nth_list_update dest!: spec[of _ k])
    with rdy have "remaining (?ps ! k) = 1" by (simp add: ready_def)
    then have "completion ?q = ?t + 1" by simp
    moreover have "?q \<in> set (?ps[k := ?q])" using k by (simp add: set_update_memI)
    ultimately show ?thesis by blast
  qed
  show ?thesis
    using len ok' tl' fin by (simp add: srtf_inv_def f)
qed

lemma srtf_inv_idle:
  assumes inv: "srtf_inv inp s" and a: "srtf_next_arrival (sj_procs s) (sj_clock s) = a" "a \<noteq> INT_MAX"
  shows "srtf_inv inp (srtf_idle s a)"
proof -
  from next_arr_fold[OF a(1)[unfolded srtf_next_arrival_def]] a(2)
  obtain p where p: "p \<in> set (sj_procs s)" "remaining p > 0" "arrival p > sj_clock s" "arrival p = a"
    by auto
  then have nd: "\<not> all_done (sj_procs s)" by (force simp: all_done_iff)
  from p have lt: "sj_clock s < a" by simp
  from inv have tl: "timeline_ok inp (sj_segs s) (sj_clock s) (done_work (sj_procs s))"
    by (simp add: srtf_inv_def)
  have ok: "proc_ok (inp ! i) a (sj_procs s ! i)" if "i < length inp" for i
    using inv that lt by (auto simp: srtf_inv_def intro: proc_ok_mono[where t = "sj_clock s"])
  show ?thesis
    using inv nd ok timeline_ok_idle[OF tl lt]
    by (simp add: srtf_inv_def srtf_idle_def)
qed

lemma srtf_inv_iter:
  assumes "srtf_inv inp s" "srtf_iter s = Some s'"
  shows "srtf_inv inp s'"
proof (cases "srtf_pick (sj_procs s) (sj_clock s)")
  case None
  with assms(2) have ne: "srtf_next_arrival (sj_procs s) (sj_clock s) \<noteq> INT_MAX"
    and s': "s' = srtf_idle s (srtf_next_arrival (sj_procs s) (sj_clock s))"
    by (auto simp: srtf_iter_def Let_def split: if_splits)
  from srtf_inv_idle[OF assms(1) refl ne] s' show ?thesis by simp
next
  case (Some k)
  with assms(2) have s': "s' = srtf_run s k" by (simp add: srtf_iter_def)
  from srtf_pick_Some[OF Some] srtf_inv_run[OF assms(1), of k] s' show ?thesis by simp
qed

lemma srtf_inv_loop: "srtf_inv inp s \<Longrightarrow> srtf_inv inp (srtf_loop s)"
proof (induction s rule: srtf_loop.induct)
  case (1 s)
  show ?case
  proof (cases "all_done (sj_procs s)")
    case True
    with 1 show ?thesis by (subst srtf_loop.simps) simp
  next
    case nd: False
    show ?thesis
    proof (cases "srtf_iter s")
      case None
      with nd 1 show ?thesis by (subst srtf_loop.simps) simp
    next
      case (Some s')
      with nd 1 srtf_inv_iter[OF "1.prems" Some] show ?thesis by (subst srtf_loop.simps) simp
    qed
  qed
qed

subsection \<open>The circular queue is a FIFO list\<close>

text \<open>
  \<open>q_list q\<close> is the content of the queue from head to tail; \<open>q_inv\<close> is the
  representation invariant of the circular buffer.
\<close>

definition q_list :: "queue \<Rightarrow> nat list" where
  "q_list q = map (\<lambda>i. q_data q ! ((q_head q + i) mod q_cap q)) [0..<q_size q]"

definition q_inv :: "queue \<Rightarrow> bool" where
  "q_inv q = (0 < q_cap q \<and> length (q_data q) = q_cap q \<and> q_head q < q_cap q \<and>
              q_size q \<le> q_cap q \<and> q_tail q = (q_head q + q_size q) mod q_cap q)"

lemma q_init_inv: "0 < cap \<Longrightarrow> q_inv (q_init cap) \<and> q_list (q_init cap) = []"
  by (simp add: q_inv_def q_init_def q_list_def)

lemma q_empty_iff: "q_empty q = (q_list q = [])"
  by (simp add: q_empty_def q_list_def)

lemma mod_add_inj_le:
  fixes h c i j :: nat
  assumes "(h + i) mod c = (h + j) mod c" "i \<le> j" "j < c"
  shows "i = j"
proof -
  have "(h + j) mod c = (h + i) mod c" using assms(1) by simp
  moreover have "h + i \<le> h + j" using assms(2) by simp
  ultimately have "c dvd (h + j) - (h + i)"
    using mod_eq_dvd_iff_nat by blast
  then have "c dvd j - i" by simp
  moreover have "j - i < c" using assms(3) by simp
  ultimately have "j - i = 0" using dvd_imp_le by fastforce
  with assms(2) show ?thesis by simp
qed

lemma mod_add_inj:
  fixes h c i j :: nat
  assumes "(h + i) mod c = (h + j) mod c" "i < c" "j < c"
  shows "i = j"
proof (cases "i \<le> j")
  case True
  with assms show ?thesis by (auto dest: mod_add_inj_le)
next
  case False
  then have "j \<le> i" by simp
  with assms mod_add_inj_le[of h j c i] show ?thesis by simp
qed

lemma q_list_nth:
  "i < q_size q \<Longrightarrow> q_list q ! i = q_data q ! ((q_head q + i) mod q_cap q)"
  by (simp add: q_list_def)

lemma length_q_list [simp]: "length (q_list q) = q_size q"
  by (simp add: q_list_def)

lemma q_grow_inv:
  assumes "q_inv q" "q_size q = q_cap q"
  shows "q_inv (q_grow q) \<and> q_list (q_grow q) = q_list q \<and> q_size (q_grow q) < q_cap (q_grow q)"
proof -
  have "q_list (q_grow q) = q_list q"
    using assms by (intro nth_equalityI) (auto simp: q_list_nth q_grow_def Let_def nth_append q_inv_def)
  with assms show ?thesis
    by (auto simp: q_inv_def q_grow_def Let_def)
qed

lemma q_store_inv:
  assumes "q_inv q" "q_size q < q_cap q"
  shows "q_inv (q\<lparr>q_data := (q_data q)[q_tail q := v], q_tail := (q_tail q + 1) mod q_cap q,
                  q_size := q_size q + 1\<rparr>)" (is "q_inv ?q'")
    and "q_list (q\<lparr>q_data := (q_data q)[q_tail q := v], q_tail := (q_tail q + 1) mod q_cap q,
                  q_size := q_size q + 1\<rparr>) = q_list q @ [v]"
proof -
  show "q_inv ?q'"
    using assms by (simp add: q_inv_def mod_Suc_eq)
  have tail: "q_tail q < q_cap q" "q_tail q = (q_head q + q_size q) mod q_cap q"
    using assms by (auto simp: q_inv_def)
  have len: "length (q_data q) = q_cap q" using assms by (simp add: q_inv_def)
  show "q_list ?q' = q_list q @ [v]"
  proof (rule nth_equalityI)
    show "length (q_list ?q') = length (q_list q @ [v])" by simp
  next
    fix i assume "i < length (q_list ?q')"
    then have i: "i < q_size q + 1" by simp
    show "q_list ?q' ! i = (q_list q @ [v]) ! i"
    proof (cases "i = q_size q")
      case True
      with tail len show ?thesis by (simp add: q_list_nth nth_append)
    next
      case False
      with i have lt: "i < q_size q" by simp
      with assms(2) have "(q_head q + i) mod q_cap q \<noteq> q_tail q"
        using mod_add_inj[of "q_head q" i "q_cap q" "q_size q"] tail by auto
      with lt show ?thesis by (simp add: q_list_nth nth_append)
    qed
  qed
qed

lemma q_push_inv:
  assumes "q_inv q"
  shows "q_inv (q_push q v) \<and> q_list (q_push q v) = q_list q @ [v]"
proof (cases "q_size q = q_cap q")
  case True
  from q_grow_inv[OF assms True] q_store_inv[of "q_grow q" v] True
  show ?thesis by (simp add: q_push_def Let_def)
next
  case False
  with assms have "q_size q < q_cap q" by (simp add: q_inv_def)
  from q_store_inv[OF assms this, of v] False
  show ?thesis by (simp add: q_push_def Let_def)
qed

lemma q_pop_inv:
  assumes "q_inv q" "q_list q \<noteq> []"
  shows "fst (q_pop q) = hd (q_list q) \<and> q_inv (snd (q_pop q)) \<and>
         q_list (snd (q_pop q)) = tl (q_list q)"
proof -
  from assms have pos: "0 < q_size q" by (simp add: q_list_def)
  from assms have inv: "0 < q_cap q" "q_head q < q_cap q" "q_size q \<le> q_cap q"
    "q_tail q = (q_head q + q_size q) mod q_cap q"
    by (auto simp: q_inv_def)
  have 1: "fst (q_pop q) = hd (q_list q)"
    using pos inv assms(2) by (simp add: q_pop_def hd_conv_nth q_list_nth)
  from pos obtain m where m: "q_size q = Suc m" by (cases "q_size q") auto
  have "(Suc (q_head q) mod q_cap q + m) mod q_cap q = (q_head q + Suc m) mod q_cap q"
    by (simp add: mod_simps)
  then have 2: "q_inv (snd (q_pop q))"
    using assms(1) m by (simp add: q_inv_def q_pop_def)
  have 3: "q_list (snd (q_pop q)) = tl (q_list q)"
  proof (rule nth_equalityI)
    show "length (q_list (snd (q_pop q))) = length (tl (q_list q))"
      by (simp add: q_pop_def)
  next
    fix i assume "i < length (q_list (snd (q_pop q)))"
    then have i: "i < q_size q - 1" by (simp add: q_pop_def)
    have "((q_head q + 1) mod q_cap q + i) mod q_cap q = (q_head q + Suc i) mod q_cap q"
      by (simp add: mod_simps)
    with i show "q_list (snd (q_pop q)) ! i = tl (q_list q) ! i"
      by (simp add: q_list_nth nth_tl q_pop_def)
  qed
  from 1 2 3 show ?thesis by simp
qed

subsection \<open>The effect of \<open>enqueue_arrivals\<close>\<close>

text \<open>
  \<open>arrive t p\<close> is what one pass of the scan does to a record; \<open>newly ps t i\<close> holds
  when the scan pushes index \<open>i\<close>.
\<close>

definition arrive :: "int \<Rightarrow> rr_process \<Rightarrow> rr_process" where
  "arrive t p = (if \<not> enqueued p \<and> arrival p \<le> t then p\<lparr>enqueued := True\<rparr> else p)"

definition newly :: "rr_process list \<Rightarrow> int \<Rightarrow> nat \<Rightarrow> bool" where
  "newly ps t i = (\<not> enqueued (ps ! i) \<and> arrival (ps ! i) \<le> t)"

lemma enqueue_prefix:
  assumes "k \<le> length ps" "q_inv q"
  shows "fst (fold (enqueue_step t) [0..<k] (ps, q)) = map (arrive t) (take k ps) @ drop k ps \<and>
         q_inv (snd (fold (enqueue_step t) [0..<k] (ps, q))) \<and>
         q_list (snd (fold (enqueue_step t) [0..<k] (ps, q))) = q_list q @ filter (newly ps t) [0..<k]"
  using assms(1)
proof (induction k)
  case 0
  with assms(2) show ?case by simp
next
  case (Suc k)
  obtain psk qk where f: "fold (enqueue_step t) [0..<k] (ps, q) = (psk, qk)"
    by (cases "fold (enqueue_step t) [0..<k] (ps, q)")
  from Suc f have psk: "psk = map (arrive t) (take k ps) @ drop k ps"
    and qk: "q_inv qk" "q_list qk = q_list q @ filter (newly ps t) [0..<k]"
    by auto
  from Suc.prems have k: "k < length ps" by simp
  then have dr: "drop k ps = ps ! k # drop (Suc k) ps" by (simp add: Cons_nth_drop_Suc)
  have nth: "psk ! k = ps ! k"
    using k by (simp add: psk nth_append)
  have upd: "psk[k := x] = map (arrive t) (take k ps) @ x # drop (Suc k) ps" for x
    using k by (simp add: psk dr list_update_append)
  have tk: "map (arrive t) (take (Suc k) ps) = map (arrive t) (take k ps) @ [arrive t (ps ! k)]"
    using k by (simp add: take_Suc_conv_app_nth)
  have step: "fold (enqueue_step t) [0..<Suc k] (ps, q) = enqueue_step t k (psk, qk)"
    by (simp add: f)
  show ?case
  proof (cases "newly ps t k")
    case True
    then have "enqueue_step t k (psk, qk) = (psk[k := (ps ! k)\<lparr>enqueued := True\<rparr>], q_push qk k)"
      by (simp add: enqueue_step_def newly_def nth)
    moreover from True have "arrive t (ps ! k) = (ps ! k)\<lparr>enqueued := True\<rparr>"
      by (simp add: newly_def arrive_def)
    ultimately show ?thesis
      using True upd[of "(ps ! k)\<lparr>enqueued := True\<rparr>"] tk q_push_inv[OF qk(1), of k] qk(2)
      unfolding step by simp
  next
    case False
    then have "enqueue_step t k (psk, qk) = (psk, qk)"
      by (auto simp: enqueue_step_def newly_def nth)
    moreover from False have "arrive t (ps ! k) = ps ! k"
      by (simp add: newly_def arrive_def)
    ultimately show ?thesis
      using False tk qk psk dr
      unfolding step by simp
  qed
qed

lemma enqueue_arrivals_eq:
  assumes "q_inv q"
  shows "fst (enqueue_arrivals ps q t) = map (arrive t) ps"
    and "q_inv (snd (enqueue_arrivals ps q t))"
    and "q_list (snd (enqueue_arrivals ps q t)) = q_list q @ filter (newly ps t) [0..<length ps]"
  using enqueue_prefix[OF le_refl assms, where ps = ps and t = t] by (simp_all add: enqueue_arrivals_def)

subsection \<open>The invariant of rr.c\<close>

text \<open>
  \<open>run\<close> is \<open>Some idx\<close> while the inner loop runs the popped index \<open>idx\<close> (which is then
  not in the queue, and whose completion time is not stamped yet) and \<open>None\<close> at the
  head of the outer loop; \<open>start\<close> is the clock value at which the current slice began.
  Each slot \<open>i\<close> satisfies: the flag \<open>enqueued\<close> is set exactly when the record has
  arrived, and \<open>i\<close> is in the queue exactly when it is enqueued, unfinished and not running.
\<close>

definition proc_live :: "int \<times> int \<times> int \<Rightarrow> int \<Rightarrow> 'a process_scheme \<Rightarrow> bool" where
  "proc_live l t p =
     (case l of (a, b, c) \<Rightarrow>
        pid p = a \<and> arrival p = b \<and> burst p = c \<and> 0 \<le> b \<and> 0 < c \<and>
        0 \<le> remaining p \<and> remaining p \<le> c \<and>
        (remaining p < c \<longrightarrow> b + (c - remaining p) \<le> t))"

definition slot_ok :: "int \<times> int \<times> int \<Rightarrow> bool \<Rightarrow> int \<Rightarrow> bool \<Rightarrow> rr_process \<Rightarrow> bool" where
  "slot_ok l running t inq p =
     ((if running then proc_live l t p \<and> enqueued p else proc_ok l t p) \<and>
      (enqueued p \<longleftrightarrow> arrival p \<le> t) \<and>
      (inq \<longleftrightarrow> enqueued p \<and> 0 < remaining p \<and> \<not> running))"

definition rr_core :: "(int \<times> int \<times> int) list \<Rightarrow> nat option \<Rightarrow> int \<Rightarrow> rr_process list \<Rightarrow> queue \<Rightarrow> bool" where
  "rr_core inp run t ps q =
     (length ps = length inp \<and> q_inv q \<and> distinct (q_list q) \<and>
      set (q_list q) \<subseteq> {..<length inp} \<and>
      (\<forall>i<length inp. slot_ok (inp ! i) (run = Some i) t (i \<in> set (q_list q)) (ps ! i)))"

definition rr_inv :: "(int \<times> int \<times> int) list \<Rightarrow> nat option \<Rightarrow> int \<Rightarrow> rr_state \<Rightarrow> bool" where
  "rr_inv inp run start s =
     (rr_core inp run (rr_clock s) (rr_procs s) (rr_queue s) \<and>
      (case run of
         None \<Rightarrow> start = rr_clock s \<and>
                 (all_done (rr_procs s) \<longrightarrow> (\<exists>p\<in>set (rr_procs s). completion p = rr_clock s))
       | Some i \<Rightarrow> i < length inp \<and> start \<le> rr_clock s) \<and>
      timeline_ok inp (rr_segs s) start (done_work (rr_procs s) - (rr_clock s - start)))"

definition rr_work :: "rr_state \<Rightarrow> nat" where
  "rr_work s = sum_list (map (\<lambda>p. nat (remaining p)) (rr_procs s))"

definition rr_unqueued :: "rr_state \<Rightarrow> nat" where
  "rr_unqueued s = length (filter (\<lambda>p. \<not> enqueued p) (rr_procs s))"

lemma slot_tick_running:
  assumes "slot_ok l True t inq p" "0 < remaining p" "t' = t + 1"
  shows "slot_ok l True t' False (arrive t' (p\<lparr>remaining := remaining p - 1\<rparr>))"
  using assms by (cases l) (auto simp: slot_ok_def proc_live_def arrive_def)

lemma slot_jump:
  assumes "slot_ok l False t inq p" "t \<le> t'"
  shows "slot_ok l False t' (inq \<or> (\<not> enqueued p \<and> arrival p \<le> t')) (arrive t' p)"
  using assms by (cases l) (auto simp: slot_ok_def proc_ok_def arrive_def)

lemma slot_pop:
  assumes "slot_ok l False t True p"
  shows "slot_ok l True t False p \<and> 0 < remaining p"
  using assms by (cases l) (auto simp: slot_ok_def proc_ok_def proc_live_def)

lemma slot_finish_done:
  assumes "slot_ok l True t False p" "remaining p = 0"
  shows "slot_ok l False t False (p\<lparr>completion := t\<rparr>)"
  using assms by (cases l) (auto simp: slot_ok_def proc_ok_def proc_live_def)

lemma slot_finish_requeue:
  assumes "slot_ok l True t False p" "remaining p \<noteq> 0"
  shows "slot_ok l False t True p"
  using assms by (cases l) (auto simp: slot_ok_def proc_ok_def proc_live_def)

lemma slot_new:
  assumes "0 \<le> fst (snd l)" "0 < snd (snd l)"
  shows "slot_ok l False t (arrival (rr_new_process l) \<le> t) (arrive t (rr_new_process l))"
  using assms by (cases l) (auto simp: slot_ok_def proc_ok_def arrive_def rr_new_process_def)

lemma slot_inq_enqueued: "slot_ok l r t True p \<Longrightarrow> enqueued p"
  by (auto simp: slot_ok_def)

text \<open>The scan keeps the invariant when every slot is ready for the new clock value.\<close>

lemma core_enqueue:
  assumes len: "length ps = length inp" and q: "q_inv q" "distinct (q_list q)"
    "set (q_list q) \<subseteq> {..<length inp}"
    and enq: "\<And>i. i \<in> set (q_list q) \<Longrightarrow> enqueued (ps ! i)"
    and slots: "\<And>i. i < length inp \<Longrightarrow>
       slot_ok (inp ! i) (run = Some i) t (i \<in> set (q_list q) \<or> newly ps t i) (arrive t (ps ! i))"
  shows "rr_core inp run t (fst (enqueue_arrivals ps q t)) (snd (enqueue_arrivals ps q t))"
proof -
  note e = enqueue_arrivals_eq[OF q(1), of ps t]
  have d: "distinct (q_list q @ filter (newly ps t) [0..<length ps])"
    using q(2) enq by (auto simp: newly_def)
  have mem: "i \<in> set (q_list q @ filter (newly ps t) [0..<length ps])
             \<longleftrightarrow> i \<in> set (q_list q) \<or> newly ps t i" if "i < length inp" for i
    using that len by auto
  show ?thesis
    unfolding rr_core_def e
    using len q(3) d mem slots e(2) by auto
qed

lemma arrive_fields [simp]:
  "remaining (arrive t p) = remaining p" "burst (arrive t p) = burst p"
  "arrival (arrive t p) = arrival p" "pid (arrive t p) = pid p"
  "completion (arrive t p) = completion p"
  by (simp_all add: arrive_def)

lemma done_work_arrive: "done_work (map (arrive t) ps) = done_work ps"
  by (simp add: done_work_def comp_def)

lemma rr_tick_fields:
  assumes "q_inv (rr_queue s)"
  shows "rr_clock (rr_tick idx s) = rr_clock s + 1"
    and "rr_segs (rr_tick idx s) = rr_segs s"
    and "rr_procs (rr_tick idx s) =
           map (arrive (rr_clock s + 1))
             ((rr_procs s)[idx := (rr_procs s ! idx)\<lparr>remaining := remaining (rr_procs s ! idx) - 1\<rparr>])"
    and "rr_queue (rr_tick idx s) =
           snd (enqueue_arrivals
             ((rr_procs s)[idx := (rr_procs s ! idx)\<lparr>remaining := remaining (rr_procs s ! idx) - 1\<rparr>])
             (rr_queue s) (rr_clock s + 1))"
  using enqueue_arrivals_eq(1)[OF assms]
  by (simp_all add: rr_tick_def Let_def)

lemma rr_tick_inv:
  assumes inv: "rr_inv inp (Some idx) start s" and pos: "0 < remaining (rr_procs s ! idx)"
  shows "rr_inv inp (Some idx) start (rr_tick idx s)"
    and "rr_clock (rr_tick idx s) = rr_clock s + 1"
    and "remaining (rr_procs (rr_tick idx s) ! idx) = remaining (rr_procs s ! idx) - 1"
    and "rr_work (rr_tick idx s) < rr_work s"
proof -
  let ?ps = "rr_procs s" and ?t = "rr_clock s" and ?q = "rr_queue s"
  let ?d = "(?ps ! idx)\<lparr>remaining := remaining (?ps ! idx) - 1\<rparr>"
  let ?ps1 = "?ps[idx := ?d]"
  from inv have core: "rr_core inp (Some idx) ?t ?ps ?q"
    and idx: "idx < length inp" and st: "start \<le> ?t"
    and tl: "timeline_ok inp (rr_segs s) start (done_work ?ps - (?t - start))"
    by (auto simp: rr_inv_def)
  from core have len: "length ?ps = length inp" and q: "q_inv ?q" "distinct (q_list ?q)"
    "set (q_list ?q) \<subseteq> {..<length inp}"
    and slot: "\<And>i. i < length inp \<Longrightarrow> slot_ok (inp ! i) (Some idx = Some i) ?t (i \<in> set (q_list ?q)) (?ps ! i)"
    by (auto simp: rr_core_def)
  note f = rr_tick_fields[OF q(1), of idx]
  have nq: "idx \<notin> set (q_list ?q)" and eq: "enqueued (?ps ! idx)"
    using slot[OF idx] by (auto simp: slot_ok_def)
  have enq: "enqueued (?ps1 ! i)" if "i \<in> set (q_list ?q)" for i
  proof -
    from that q(3) have i: "i < length inp" by auto
    from that nq have "i \<noteq> idx" by auto
    with slot[OF i] that show ?thesis by (auto dest: slot_inq_enqueued)
  qed
  have slots: "slot_ok (inp ! i) (Some idx = Some i) (?t + 1)
                 (i \<in> set (q_list ?q) \<or> newly ?ps1 (?t + 1) i) (arrive (?t + 1) (?ps1 ! i))"
    if i: "i < length inp" for i
  proof (cases "i = idx")
    case True
    with slot[OF i] have "slot_ok (inp ! i) True ?t (i \<in> set (q_list ?q)) (?ps ! idx)" by simp
    from slot_tick_running[OF this pos refl] True nq eq i len
    show ?thesis by (simp add: newly_def)
  next
    case False
    with slot[OF i] have "slot_ok (inp ! i) False ?t (i \<in> set (q_list ?q)) (?ps ! i)" by simp
    from slot_jump[OF this, of "?t + 1"] False
    show ?thesis by (simp add: newly_def)
  qed
  have core': "rr_core inp (Some idx) (?t + 1) (fst (enqueue_arrivals ?ps1 ?q (?t + 1)))
                 (snd (enqueue_arrivals ?ps1 ?q (?t + 1)))"
    by (rule core_enqueue) (use len q enq slots in auto)
  have dw: "done_work (map (arrive (?t + 1)) ?ps1) = done_work ?ps + 1"
    using idx len by (simp add: done_work_arrive done_work_update)
  have w: "done_work (map (arrive (?t + 1)) ?ps1) - (?t + 1 - start) = done_work ?ps - (?t - start)"
    using dw by linarith
  have tl': "timeline_ok inp (rr_segs s) start
               (done_work (map (arrive (?t + 1)) ?ps1) - (?t + 1 - start))"
    unfolding w by (rule tl)
  show "rr_inv inp (Some idx) start (rr_tick idx s)"
    using core' idx st tl'
    by (simp add: rr_inv_def f enqueue_arrivals_eq(1)[OF q(1)])
  show "rr_clock (rr_tick idx s) = rr_clock s + 1" by (rule f)
  show "remaining (rr_procs (rr_tick idx s) ! idx) = remaining (rr_procs s ! idx) - 1"
    using idx len by (simp add: f)
  have "sum_list (map (\<lambda>p. nat (remaining p)) ?ps1) < sum_list (map (\<lambda>p. nat (remaining p)) ?ps)"
    by (rule sum_list_nat_update) (use idx len pos in auto)
  then show "rr_work (rr_tick idx s) < rr_work s"
    by (simp add: rr_work_def f comp_def)
qed

lemma rr_slice_inv:
  assumes "rr_inv inp (Some idx) start s" "int m \<le> remaining (rr_procs s ! idx)"
  shows "rr_inv inp (Some idx) start (rr_slice m idx s) \<and>
         rr_clock (rr_slice m idx s) = rr_clock s + int m \<and>
         remaining (rr_procs (rr_slice m idx s) ! idx) = remaining (rr_procs s ! idx) - int m \<and>
         rr_work (rr_slice m idx s) + m \<le> rr_work s"
  using assms
proof (induction m arbitrary: s)
  case 0
  then show ?case by simp
next
  case (Suc m)
  from Suc.prems have pos: "0 < remaining (rr_procs s ! idx)" by simp
  note t = rr_tick_inv[OF Suc.prems(1) pos]
  show ?case
  proof (cases "remaining (rr_procs (rr_tick idx s) ! idx) = 0")
    case True
    with t(3) Suc.prems(2) have "m = 0" by simp
    with True t show ?thesis by (simp add: Let_def)
  next
    case False
    from t(3) Suc.prems(2) have "int m \<le> remaining (rr_procs (rr_tick idx s) ! idx)" by simp
    from Suc.IH[OF t(1) this] False t(2,3,4) show ?thesis by (simp add: Let_def)
  qed
qed

lemma done_work_same:
  assumes "burst q = burst (ps ! k)" "remaining q = remaining (ps ! k)"
  shows "done_work (ps[k := q]) = done_work ps"
proof (cases "k < length ps")
  case True
  with assms show ?thesis by (simp add: done_work_def sum_list_int_update)
next
  case False
  then show ?thesis by (simp add: list_update_beyond)
qed

lemma rr_pop_inv:
  assumes inv: "rr_inv inp None t0 s" and ne: "q_list (rr_queue s) \<noteq> []"
  shows "rr_inv inp (Some (fst (q_pop (rr_queue s)))) (rr_clock s) (s\<lparr>rr_queue := snd (q_pop (rr_queue s))\<rparr>)"
    and "0 < remaining (rr_procs s ! fst (q_pop (rr_queue s)))"
    and "fst (q_pop (rr_queue s)) < length inp"
proof -
  let ?ps = "rr_procs s" and ?t = "rr_clock s" and ?q = "rr_queue s"
  let ?idx = "fst (q_pop ?q)" and ?q' = "snd (q_pop ?q)"
  from inv have core: "rr_core inp None ?t ?ps ?q"
    and tl: "timeline_ok inp (rr_segs s) ?t (done_work ?ps - (?t - ?t))"
    by (auto simp: rr_inv_def)
  from core have len: "length ?ps = length inp" and q: "q_inv ?q" "distinct (q_list ?q)"
    "set (q_list ?q) \<subseteq> {..<length inp}"
    and slot: "\<And>i. i < length inp \<Longrightarrow> slot_ok (inp ! i) False ?t (i \<in> set (q_list ?q)) (?ps ! i)"
    by (auto simp: rr_core_def)
  from q_pop_inv[OF q(1) ne] have p: "?idx = hd (q_list ?q)" "q_inv ?q'" "q_list ?q' = tl (q_list ?q)"
    by auto
  from ne p(1) have mem: "?idx \<in> set (q_list ?q)" by simp
  with q(3) show idx: "?idx < length inp" by auto
  from slot[OF idx] mem have "slot_ok (inp ! ?idx) False ?t True (?ps ! ?idx)" by simp
  from slot_pop[OF this] have pos: "0 < remaining (?ps ! ?idx)"
    and sidx: "slot_ok (inp ! ?idx) True ?t False (?ps ! ?idx)" by auto
  from pos show "0 < remaining (?ps ! ?idx)" .
  from ne q(2) p(1) have notin: "?idx \<notin> set (tl (q_list ?q))"
    by (cases "q_list ?q") auto
  have other: "i \<in> set (tl (q_list ?q)) \<longleftrightarrow> i \<in> set (q_list ?q)" if "i \<noteq> ?idx" for i
    using ne p(1) that by (cases "q_list ?q") auto
  have slots: "slot_ok (inp ! i) (Some ?idx = Some i) ?t (i \<in> set (tl (q_list ?q))) (?ps ! i)"
    if i: "i < length inp" for i
  proof (cases "i = ?idx")
    case True
    with sidx notin show ?thesis by simp
  next
    case False
    with slot[OF i] other[OF False] show ?thesis by auto
  qed
  have sub: "set (tl (q_list ?q)) \<subseteq> {..<length inp}"
    using q(3) ne by (cases "q_list ?q") auto
  have "rr_core inp (Some ?idx) ?t ?ps ?q'"
    unfolding rr_core_def p(3)
    using len p(2) q(2) sub slots by (simp add: distinct_tl)
  with idx tl show "rr_inv inp (Some ?idx) ?t (s\<lparr>rr_queue := ?q'\<rparr>)"
    by (simp add: rr_inv_def)
qed

lemma rr_finish_inv:
  assumes inv: "rr_inv inp (Some idx) start s" and lt: "start < rr_clock s"
  shows "rr_inv inp None (rr_clock s) (rr_finish idx start s)"
    and "rr_clock (rr_finish idx start s) = rr_clock s"
    and "rr_work (rr_finish idx start s) = rr_work s"
proof -
  let ?ps = "rr_procs s" and ?t = "rr_clock s" and ?q = "rr_queue s"
  let ?sg = "add_segment (rr_segs s) (pid (?ps ! idx)) start ?t"
  from inv have core: "rr_core inp (Some idx) ?t ?ps ?q"
    and idx: "idx < length inp"
    and tl: "timeline_ok inp (rr_segs s) start (done_work ?ps - (?t - start))"
    by (auto simp: rr_inv_def)
  from core have len: "length ?ps = length inp" and q: "q_inv ?q" "distinct (q_list ?q)"
    "set (q_list ?q) \<subseteq> {..<length inp}"
    and slot: "\<And>i. i < length inp \<Longrightarrow> slot_ok (inp ! i) (Some idx = Some i) ?t (i \<in> set (q_list ?q)) (?ps ! i)"
    by (auto simp: rr_core_def)
  have sidx: "slot_ok (inp ! idx) True ?t False (?ps ! idx)" and nq: "idx \<notin> set (q_list ?q)"
    using slot[OF idx] by (auto simp: slot_ok_def)
  have pidx: "list_all (\<lambda>l. fst l \<noteq> - 1) inp \<Longrightarrow> pid (?ps ! idx) \<noteq> - 1"
    using sidx idx by (cases "inp ! idx") (auto simp: slot_ok_def proc_live_def list_all_length)
  have "timeline_ok inp ?sg ?t (done_work ?ps - (?t - start) + (?t - start))"
    by (rule timeline_ok_add[OF tl lt pidx])
  then have tl': "timeline_ok inp ?sg ?t (done_work ?ps)" by simp
  show "rr_clock (rr_finish idx start s) = rr_clock s"
    by (simp add: rr_finish_def Let_def)
  show "rr_work (rr_finish idx start s) = rr_work s"
    by (simp add: rr_finish_def Let_def rr_work_def sum_list_nat_update_eq)
  show "rr_inv inp None (rr_clock s) (rr_finish idx start s)"
  proof (cases "remaining (?ps ! idx) = 0")
    case True
    let ?c = "(?ps ! idx)\<lparr>completion := ?t\<rparr>"
    have fin: "rr_finish idx start s = s\<lparr>rr_segs := ?sg, rr_procs := ?ps[idx := ?c]\<rparr>"
      using True by (simp add: rr_finish_def Let_def)
    have slots: "slot_ok (inp ! i) False ?t (i \<in> set (q_list ?q)) (?ps[idx := ?c] ! i)"
      if i: "i < length inp" for i
    proof (cases "i = idx")
      case t: True
      with slot_finish_done[OF sidx True] nq idx len show ?thesis by simp
    next
      case False
      with slot[OF i] show ?thesis by simp
    qed
    have core': "rr_core inp None ?t (?ps[idx := ?c]) ?q"
      unfolding rr_core_def using len q slots by simp
    have "?c \<in> set (?ps[idx := ?c])" using idx len by (simp add: set_update_memI)
    then have ex: "\<exists>p\<in>set (?ps[idx := ?c]). completion p = ?t" by force
    have dw: "done_work (?ps[idx := ?c]) = done_work ?ps"
      by (rule done_work_same) simp_all
    show ?thesis
      unfolding fin using core' ex tl' dw by (simp add: rr_inv_def)
  next
    case False
    have fin: "rr_finish idx start s = s\<lparr>rr_segs := ?sg, rr_queue := q_push ?q idx\<rparr>"
      using False by (simp add: rr_finish_def Let_def)
    note pq = q_push_inv[OF q(1), of idx]
    have slots: "slot_ok (inp ! i) False ?t (i \<in> set (q_list ?q @ [idx])) (?ps ! i)"
      if i: "i < length inp" for i
    proof (cases "i = idx")
      case t: True
      with slot_finish_requeue[OF sidx False] show ?thesis by simp
    next
      case False
      with slot[OF i] show ?thesis by simp
    qed
    have core': "rr_core inp None ?t ?ps (q_push ?q idx)"
      unfolding rr_core_def using len q pq slots nq idx by simp
    from False sidx have "0 < remaining (?ps ! idx)"
      by (cases "inp ! idx") (auto simp: slot_ok_def proc_live_def)
    moreover have "?ps ! idx \<in> set ?ps" using idx len by simp
    ultimately have nd: "\<not> all_done ?ps" by (force simp: all_done_iff)
    show ?thesis
      unfolding fin using core' nd tl' by (simp add: rr_inv_def)
  qed
qed

lemma rr_dispatch_inv:
  assumes inv: "rr_inv inp (Some idx) (rr_clock s) s" and pos: "0 < remaining (rr_procs s ! idx)"
    and qn: "0 < quantum"
  shows "rr_inv inp None (rr_clock (rr_dispatch quantum idx s)) (rr_dispatch quantum idx s)"
    and "rr_work (rr_dispatch quantum idx s) < rr_work s"
proof -
  let ?r = "remaining (rr_procs s ! idx)"
  let ?m = "nat (if ?r < quantum then ?r else quantum)"
  have m: "int ?m \<le> ?r" "0 < ?m" using pos qn by auto
  from rr_slice_inv[OF inv m(1)]
  have sl: "rr_inv inp (Some idx) (rr_clock s) (rr_slice ?m idx s)"
    "rr_clock (rr_slice ?m idx s) = rr_clock s + int ?m"
    "rr_work (rr_slice ?m idx s) + ?m \<le> rr_work s"
    by auto
  from sl(2) m(2) have lt: "rr_clock s < rr_clock (rr_slice ?m idx s)" by simp
  note fin = rr_finish_inv[OF sl(1) lt]
  have d: "rr_dispatch quantum idx s = rr_finish idx (rr_clock s) (rr_slice ?m idx s)"
    by (simp add: rr_dispatch_def Let_def)
  show "rr_inv inp None (rr_clock (rr_dispatch quantum idx s)) (rr_dispatch quantum idx s)"
    unfolding d using fin(1,2) by simp
  show "rr_work (rr_dispatch quantum idx s) < rr_work s"
    unfolding d using fin(3) sl(3) m(2) by simp
qed

lemma rr_next_fold:
  "fold rr_next_step ps a0 = b \<Longrightarrow>
     b = a0 \<or> (\<exists>p\<in>set ps. 0 < remaining p \<and> \<not> enqueued p \<and> arrival p = b)"
proof (induction ps arbitrary: a0)
  case Nil
  then show ?case by simp
next
  case (Cons p ps)
  from Cons.IH[of "rr_next_step p a0"] Cons.prems show ?case
    by (auto simp: rr_next_step_def split: if_splits)
qed

lemma rr_next_fold_found:
  assumes "\<forall>p\<in>set ps. 0 \<le> arrival p" "- 1 \<le> a0"
    "0 \<le> a0 \<or> (\<exists>p\<in>set ps. 0 < remaining p \<and> \<not> enqueued p)"
  shows "0 \<le> fold rr_next_step ps a0"
  using assms
proof (induction ps arbitrary: a0)
  case Nil
  then show ?case by simp
next
  case (Cons p ps)
  have "0 \<le> fold rr_next_step ps (rr_next_step p a0)"
  proof (rule Cons.IH)
    show "\<forall>p\<in>set ps. 0 \<le> arrival p" using Cons.prems(1) by simp
    show "- 1 \<le> rr_next_step p a0" using Cons.prems(1,2) by (auto simp: rr_next_step_def)
    show "0 \<le> rr_next_step p a0 \<or> (\<exists>p\<in>set ps. 0 < remaining p \<and> \<not> enqueued p)"
      using Cons.prems by (auto simp: rr_next_step_def)
  qed
  then show ?case by simp
qed

lemma all_done_arrive: "all_done (map (arrive t) ps) = all_done ps"
  by (simp add: all_done_iff)

lemma rr_idle_inv:
  assumes inv: "rr_inv inp None t0 s" and emp: "q_list (rr_queue s) = []"
    and a: "rr_next_arrival (rr_procs s) = a" "a \<noteq> - 1"
  shows "rr_inv inp None a (rr_idle s a)"
    and "rr_clock (rr_idle s a) = a"
    and "rr_work (rr_idle s a) = rr_work s"
    and "rr_unqueued (rr_idle s a) < rr_unqueued s"
proof -
  let ?ps = "rr_procs s" and ?t = "rr_clock s" and ?q = "rr_queue s"
  from inv have core: "rr_core inp None ?t ?ps ?q"
    and tl: "timeline_ok inp (rr_segs s) ?t (done_work ?ps - (?t - ?t))"
    by (auto simp: rr_inv_def)
  from core have len: "length ?ps = length inp" and q: "q_inv ?q" "distinct (q_list ?q)"
    "set (q_list ?q) \<subseteq> {..<length inp}"
    and slot: "\<And>i. i < length inp \<Longrightarrow> slot_ok (inp ! i) False ?t (i \<in> set (q_list ?q)) (?ps ! i)"
    by (auto simp: rr_core_def)
  from rr_next_fold[OF a(1)[unfolded rr_next_arrival_def]] a(2)
  obtain p where p: "p \<in> set ?ps" "0 < remaining p" "\<not> enqueued p" "arrival p = a"
    by auto
  then obtain j where j: "j < length inp" "?ps ! j = p"
    using len by (auto simp: in_set_conv_nth)
  from slot[OF j(1)] j(2) p(3,4) have lt: "?t < a" by (auto simp: slot_ok_def)
  have slots: "slot_ok (inp ! i) (None = Some i) a (i \<in> set (q_list ?q) \<or> newly ?ps a i) (arrive a (?ps ! i))"
    if i: "i < length inp" for i
    using slot_jump[OF slot[OF i], of a] lt by (simp add: newly_def)
  have core': "rr_core inp None a (fst (enqueue_arrivals ?ps ?q a)) (snd (enqueue_arrivals ?ps ?q a))"
    by (rule core_enqueue) (use len q slots emp in auto)
  note e = enqueue_arrivals_eq(1)[OF q(1), of ?ps a]
  have f: "rr_procs (rr_idle s a) = map (arrive a) ?ps"
    "rr_queue (rr_idle s a) = snd (enqueue_arrivals ?ps ?q a)"
    "rr_segs (rr_idle s a) = add_segment (rr_segs s) (- 1) ?t a"
    "rr_clock (rr_idle s a) = a"
    using lt by (simp_all add: rr_idle_def Let_def e)
  show "rr_clock (rr_idle s a) = a" by (rule f)
  from p have nd: "\<not> all_done ?ps" by (force simp: all_done_iff)
  from tl have "timeline_ok inp (rr_segs s) ?t (done_work ?ps)" by simp
  from timeline_ok_idle[OF this lt]
  have tl': "timeline_ok inp (add_segment (rr_segs s) (- 1) ?t a) a (done_work ?ps)" .
  show "rr_inv inp None a (rr_idle s a)"
    using core' nd tl' by (simp add: rr_inv_def f e all_done_arrive done_work_arrive)
  show "rr_work (rr_idle s a) = rr_work s"
    by (simp add: rr_work_def f comp_def)
  have "length (filter (\<lambda>p. \<not> enqueued (arrive a p)) ?ps) < length (filter (\<lambda>p. \<not> enqueued p) ?ps)"
    by (rule filter_length_less[where x = p]) (use p in \<open>auto simp: arrive_def\<close>)
  then show "rr_unqueued (rr_idle s a) < rr_unqueued s"
    by (simp add: rr_unqueued_def f filter_map comp_def)
qed

lemma rr_idle_found:
  assumes inv: "rr_inv inp None t0 s" and emp: "q_list (rr_queue s) = []"
    and nd: "\<not> all_done (rr_procs s)"
  shows "rr_next_arrival (rr_procs s) \<noteq> - 1"
proof -
  let ?ps = "rr_procs s"
  from inv have len: "length ?ps = length inp"
    and slot: "\<And>i. i < length inp \<Longrightarrow> slot_ok (inp ! i) False (rr_clock s) (i \<in> set (q_list (rr_queue s))) (?ps ! i)"
    by (auto simp: rr_inv_def rr_core_def)
  have arr: "\<forall>p\<in>set ?ps. 0 \<le> arrival p"
  proof
    fix p assume "p \<in> set ?ps"
    then obtain i where i: "i < length inp" "?ps ! i = p" using len by (auto simp: in_set_conv_nth)
    from slot[OF i(1)] i(2) show "0 \<le> arrival p"
      by (cases "inp ! i") (auto simp: slot_ok_def proc_ok_def)
  qed
  from nd obtain p where p: "p \<in> set ?ps" "0 < remaining p" by (force simp: all_done_iff)
  then obtain i where i: "i < length inp" "?ps ! i = p" using len by (auto simp: in_set_conv_nth)
  from slot[OF i(1)] i(2) p(2) emp have "\<not> enqueued p" by (auto simp: slot_ok_def)
  with p have "\<exists>p\<in>set ?ps. 0 < remaining p \<and> \<not> enqueued p" by blast
  with arr have "0 \<le> fold rr_next_step ?ps (- 1)"
    by (intro rr_next_fold_found) auto
  then show ?thesis by (simp add: rr_next_arrival_def)
qed

text \<open>One pass of the outer loop keeps the invariant and makes progress.\<close>

lemma rr_iter_inv:
  assumes inv: "rr_inv inp None t0 s" and nd: "\<not> all_done (rr_procs s)" and qn: "0 < quantum"
  shows "\<exists>s'. rr_iter quantum s = Some s' \<and> rr_inv inp None (rr_clock s') s' \<and>
              (s', s) \<in> measures [rr_work, rr_unqueued]"
proof (cases "q_list (rr_queue s) = []")
  case True
  from rr_idle_found[OF inv True nd] have ne: "rr_next_arrival (rr_procs s) \<noteq> - 1" .
  note i = rr_idle_inv[OF inv True refl ne]
  have "rr_iter quantum s = Some (rr_idle s (rr_next_arrival (rr_procs s)))"
    using True ne by (simp add: rr_iter_def q_empty_iff Let_def)
  with i show ?thesis by simp
next
  case False
  let ?idx = "fst (q_pop (rr_queue s))" and ?s1 = "s\<lparr>rr_queue := snd (q_pop (rr_queue s))\<rparr>"
  note p = rr_pop_inv[OF inv False]
  have "rr_inv inp (Some ?idx) (rr_clock ?s1) ?s1" using p(1) by simp
  moreover have "0 < remaining (rr_procs ?s1 ! ?idx)" using p(2) by simp
  ultimately have d: "rr_inv inp None (rr_clock (rr_dispatch quantum ?idx ?s1)) (rr_dispatch quantum ?idx ?s1)"
    "rr_work (rr_dispatch quantum ?idx ?s1) < rr_work ?s1"
    using rr_dispatch_inv[of inp ?idx ?s1 quantum] qn by auto
  have "rr_iter quantum s = Some (rr_dispatch quantum ?idx ?s1)"
    using False p(2) by (simp add: rr_iter_def q_empty_iff Let_def)
  moreover have "rr_work ?s1 = rr_work s" by (simp add: rr_work_def)
  ultimately show ?thesis using d by simp
qed

text \<open>The states at the head of the outer loop during a run from \<open>s0\<close>.\<close>

inductive rr_reach :: "int \<Rightarrow> rr_state \<Rightarrow> rr_state \<Rightarrow> bool" for quantum s0 where
  start: "rr_reach quantum s0 s0"
| step: "rr_reach quantum s0 s \<Longrightarrow> \<not> all_done (rr_procs s) \<Longrightarrow> rr_iter quantum s = Some s'
         \<Longrightarrow> rr_reach quantum s0 s'"

lemma rr_reach_inv:
  assumes "rr_reach quantum s0 s" "rr_inv inp None (rr_clock s0) s0" "0 < quantum"
  shows "rr_inv inp None (rr_clock s) s"
  using assms
proof (induction rule: rr_reach.induct)
  case start
  then show ?case by simp
next
  case (step s s')
  from rr_iter_inv[OF step.IH[OF step.prems] step.hyps(2) step.prems(2)] step.hyps(3)
  show ?case by auto
qed

lemma rr_loop_total:
  assumes "rr_inv inp None (rr_clock s) s" "0 < quantum"
  shows "\<exists>s'. rr_loop quantum s = Some s' \<and> rr_inv inp None (rr_clock s') s' \<and>
              all_done (rr_procs s')"
  using assms(1)
proof (induction s rule: wf_induct_rule[OF wf_measures[of "[rr_work, rr_unqueued]"]])
  case (1 s)
  show ?case
  proof (cases "all_done (rr_procs s)")
    case True
    with "1.prems" show ?thesis by (subst rr_loop.simps) simp
  next
    case False
    from rr_iter_inv[OF "1.prems" False assms(2)]
    obtain s1 where s1: "rr_iter quantum s = Some s1" "rr_inv inp None (rr_clock s1) s1"
      "(s1, s) \<in> measures [rr_work, rr_unqueued]" by blast
    from "1.IH"[OF s1(3) s1(2)] obtain s' where
      "rr_loop quantum s1 = Some s'" "rr_inv inp None (rr_clock s') s'" "all_done (rr_procs s')"
      by blast
    with False s1(1) show ?thesis by (subst rr_loop.simps) simp
  qed
qed

lemma valid_input_rr_new:
  assumes "valid_input inp"
  shows "\<not> all_done (map (arrive t) (map rr_new_process inp))"
  using assms by (cases inp) (auto simp: valid_input_def rr_new_process_def arrive_def)

lemma done_work_rr_new: "done_work (map rr_new_process inp) = 0"
  by (induction inp) (auto simp: done_work_def rr_new_process_def)

lemma newly_rr_new:
  "i < length inp \<Longrightarrow>
     newly (map rr_new_process inp) t i = (arrival (rr_new_process (inp ! i)) \<le> t)"
  by (cases "inp ! i") (simp add: newly_def rr_new_process_def)

lemma rr_core_start:
  assumes v: "valid_input inp" and q: "q_inv q" "q_list q = []"
  shows "rr_core inp None t (fst (enqueue_arrivals (map rr_new_process inp) q t))
           (snd (enqueue_arrivals (map rr_new_process inp) q t))"
proof (rule core_enqueue)
  fix i assume i: "i < length inp"
  from slot_new[of "inp ! i" t] valid_input_nth[OF v i]
  have "slot_ok (inp ! i) False t (arrival (rr_new_process (inp ! i)) \<le> t)
          (arrive t (rr_new_process (inp ! i)))" by simp
  then show "slot_ok (inp ! i) (None = Some i) t
          (i \<in> set (q_list q) \<or> newly (map rr_new_process inp) t i)
          (arrive t (map rr_new_process inp ! i))"
    using i by (simp add: q newly_rr_new)
qed (use q in auto)

lemma rr_init_inv:
  assumes v: "valid_input inp"
  shows "rr_inv inp None (rr_clock (rr_init (map rr_new_process inp))) (rr_init (map rr_new_process inp))"
proof -
  let ?ps = "map rr_new_process inp"
  let ?e = "earliest_arrival ?ps"
  define t where "t = (if 0 < ?e then ?e else 0)"
  define q where "q = q_init (if 4 < length inp then length inp else 4)"
  have "0 < (if 4 < length inp then length inp else 4)" by auto
  from q_init_inv[OF this] have q: "q_inv q" "q_list q = []" unfolding q_def by blast+
  note e = enqueue_arrivals_eq(1)[OF q(1), of ?ps t]
  have f: "rr_procs (rr_init ?ps) = map (arrive t) ?ps"
    "rr_queue (rr_init ?ps) = snd (enqueue_arrivals ?ps q t)"
    "rr_segs (rr_init ?ps) = (if 0 < ?e then add_segment [] (- 1) 0 ?e else [])"
    "rr_clock (rr_init ?ps) = t"
    using e by (simp_all add: rr_init_def Let_def t_def q_def)
  note core = rr_core_start[OF v q, of t]
  have tl0: "timeline_ok inp [] 0 0" by (simp add: timeline_ok_def busy_time_def)
  have tl: "timeline_ok inp (if 0 < ?e then add_segment [] (- 1) 0 ?e else []) t 0"
    using timeline_ok_idle[OF tl0, of ?e] tl0 by (simp add: t_def)
  have dw: "done_work (map (arrive t) ?ps) - (t - t) = 0"
    by (simp only: done_work_arrive done_work_rr_new)
  have nd: "all_done (map (arrive t) ?ps) = False"
    using valid_input_rr_new[OF v] by simp
  show ?thesis
    unfolding rr_inv_def f dw nd
    using core[unfolded e] tl by simp
qed

section \<open>The report\<close>

lemma fold_add_of_int:
  "fold (\<lambda>p a. a + of_int (f p)) ps (a0 :: real) = a0 + of_int (sum_list (map f ps))"
  by (induction ps arbitrary: a0) simp_all

lemma make_report_fields:
  "rp_segs (make_report sgs ps) = sgs"
  "rp_procs (make_report sgs ps) = map set_metrics ps"
  "rp_avg_wait (make_report sgs ps) =
     of_int (sum_list (map (\<lambda>p. waiting (set_metrics p)) ps)) / of_nat (length ps)"
  "rp_avg_tat (make_report sgs ps) =
     of_int (sum_list (map (\<lambda>p. turnaround (set_metrics p)) ps)) / of_nat (length ps)"
  by (simp_all add: make_report_def Let_def fold_add_of_int comp_def)

lemma set_metrics_fields [simp]:
  "pid (set_metrics p) = pid p" "arrival (set_metrics p) = arrival p"
  "burst (set_metrics p) = burst p" "remaining (set_metrics p) = remaining p"
  "completion (set_metrics p) = completion p"
  "turnaround (set_metrics p) = completion p - arrival p"
  "waiting (set_metrics p) = completion p - arrival p - burst p"
  by (simp_all add: set_metrics_def Let_def)

section \<open>The two scenarios of the specification\<close>

definition seg_triples :: "segment list \<Rightarrow> (int \<times> int \<times> int) list" where
  "seg_triples sgs = map (\<lambda>s. (s_pid s, s_start s, s_end s)) sgs"

text \<open>Scenario A: \<open>n = 3\<close>, quantum 2, then the lines P1(0, 4), P2(1, 3), P3(3, 2).\<close>

definition scenario_A :: "token list" where
  "scenario_A = [Num 3, Num 2, Num 1, Num 0, Num 4, Num 2, Num 1, Num 3, Num 3, Num 3, Num 2]"

text \<open>Scenario B: \<open>n = 4\<close>, then the lines P1(0, 8), P2(1, 4), P3(2, 9), P4(3, 5).\<close>

definition scenario_B :: "token list" where
  "scenario_B = [Num 4, Num 1, Num 0, Num 8, Num 2, Num 1, Num 4, Num 3, Num 2, Num 9,
                 Num 4, Num 3, Num 5]"

lemma scenario_A_run:
  "map_option (\<lambda>s. (seg_triples (rr_segs s), map completion (rr_procs s), map arrival (rr_procs s),
                     map burst (rr_procs s), map pid (rr_procs s)))
     (rr_loop 2 (rr_init (map rr_new_process [(1, 0, 4), (2, 1, 3), (3, 3, 2)])))
   = Some ([(1, 0, 2), (2, 2, 4), (1, 4, 6), (3, 6, 8), (2, 8, 9)], [6, 9, 8], [0, 1, 3], [4, 3, 2],
           [1, 2, 3])"
  by code_simp

lemma scenario_A_read:
  "rr_main scenario_A = map_option Inr (rr_simulate 2 (map rr_new_process [(1, 0, 4), (2, 1, 3), (3, 3, 2)]))"
  by (simp add: rr_main_def scenario_A_def eval_nat_numeral)

lemma list3: "length xs = 3 \<Longrightarrow> \<exists>a b c. xs = [a, b, c]"
  by (cases xs; simp; cases "tl xs"; simp; cases "tl (tl xs)"; simp)

text \<open>
  C1. Round robin with quantum 2 on P1(arrival 0, burst 4), P2(1, 3), P3(3, 2): the
  timeline is [0-2] P1, [2-4] P2, [4-6] P1, [6-8] P3, [8-9] P2, the waiting times are
  P1 = 2, P2 = 5, P3 = 3, and the averages print as 3.33 (waiting) and 6.33 (turnaround).
\<close>

theorem rr_scenario_A:
  "\<exists>r. rr_main scenario_A = Some (Inr r) \<and>
       seg_triples (rp_segs r) = [(1, 0, 2), (2, 2, 4), (1, 4, 6), (3, 6, 8), (2, 8, 9)] \<and>
       map pid (rp_procs r) = [1, 2, 3] \<and>
       map waiting (rp_procs r) = [2, 5, 3] \<and>
       hundredths (rp_avg_wait r) = 333 \<and>
       hundredths (rp_avg_tat r) = 633"
proof -
  let ?ps = "map rr_new_process [(1, 0, 4), (2, 1, 3), (3, 3, 2)]"
  from scenario_A_run obtain s where s: "rr_loop 2 (rr_init ?ps) = Some s"
    and sg: "seg_triples (rr_segs s) = [(1, 0, 2), (2, 2, 4), (1, 4, 6), (3, 6, 8), (2, 8, 9)]"
    and c: "map completion (rr_procs s) = [6, 9, 8]" and a: "map arrival (rr_procs s) = [0, 1, 3]"
    and b: "map burst (rr_procs s) = [4, 3, 2]" and p: "map pid (rr_procs s) = [1, 2, 3]"
    by auto
  from c have "length (rr_procs s) = 3" by (metis length_map length_Cons list.size(3) numeral_3_eq_3)
  then obtain p1 p2 p3 where ps: "rr_procs s = [p1, p2, p3]" using list3 by blast
  have main: "rr_main scenario_A = Some (Inr (make_report (rr_segs s) (rr_procs s)))"
    using s by (simp add: scenario_A_read rr_simulate_def)
  show ?thesis
    unfolding main using sg c a b p
    by (simp add: make_report_fields ps hundredths_def round_def)
qed


lemma list4: "length xs = 4 \<Longrightarrow> \<exists>a b c d. xs = [a, b, c, d]"
  by (cases xs; simp; cases "tl xs"; simp; cases "tl (tl xs)"; simp; cases "tl (tl (tl xs))"; simp)

definition lines_B :: "(int \<times> int \<times> int) list" where
  "lines_B = [(1, 0, 8), (2, 1, 4), (3, 2, 9), (4, 3, 5)]"

lemma scenario_B_run:
  "(let s = srtf_loop (srtf_init (map new_process lines_B))
    in (map completion (sj_procs s), map arrival (sj_procs s), map burst (sj_procs s),
        map pid (sj_procs s)))
   = ([17, 5, 26, 10], [0, 1, 2, 3], [8, 4, 9, 5], [1, 2, 3, 4])"
  by code_simp

lemma scenario_B_read:
  "srtf_main scenario_B = Inr (srtf_simulate (map new_process lines_B))"
  by (simp add: srtf_main_def scenario_B_def lines_B_def eval_nat_numeral)

lemma scenario_B_report:
  "map pid (rp_procs (srtf_simulate (map new_process lines_B))) = [1, 2, 3, 4] \<and>
   map waiting (rp_procs (srtf_simulate (map new_process lines_B))) = [9, 0, 15, 2] \<and>
   hundredths (rp_avg_wait (srtf_simulate (map new_process lines_B))) = 650"
proof -
  define s where "s = srtf_loop (srtf_init (map new_process lines_B))"
  from scenario_B_run have c: "map completion (sj_procs s) = [17, 5, 26, 10]"
    and a: "map arrival (sj_procs s) = [0, 1, 2, 3]" and b: "map burst (sj_procs s) = [8, 4, 9, 5]"
    and p: "map pid (sj_procs s) = [1, 2, 3, 4]"
    unfolding s_def by (simp_all only: Let_def prod.inject)
  have "length (map completion (sj_procs s)) = 4" unfolding c by simp
  then have "length (sj_procs s) = 4" by (simp only: length_map)
  then obtain p1 p2 p3 p4 where ps: "sj_procs s = [p1, p2, p3, p4]" using list4 by blast
  have sim: "srtf_simulate (map new_process lines_B) = make_report (sj_segs s) (sj_procs s)"
    by (simp only: srtf_simulate_def Let_def s_def)
  show ?thesis
    unfolding sim using c a b p
    by (simp add: make_report_fields ps hundredths_def round_def)
qed

text \<open>
  C2.  For scenario B the program does not report the waiting times 9, 1, 15, 0: P2 runs
  from 1 to 5 without waiting, and P4 waits from 3 to 5.
\<close>

theorem srtf_scenario_B_not_as_specified:
  "srtf_main scenario_B = Inr (srtf_simulate (map new_process lines_B)) \<and>
   map waiting (rp_procs (srtf_simulate (map new_process lines_B))) \<noteq> [9, 1, 15, 0]"
proof -
  from scenario_B_report
  have "map waiting (rp_procs (srtf_simulate (map new_process lines_B))) = [9, 0, 15, 2]"
    by (rule conjunct1[OF conjunct2])
  then have "map waiting (rp_procs (srtf_simulate (map new_process lines_B))) \<noteq> [9, 1, 15, 0]"
    by (simp only:) simp
  with scenario_B_read show ?thesis by (rule conjI)
qed

text \<open>
  C2, amended.  For scenario B (SRTF, P1(0, 8), P2(1, 4), P3(2, 9), P4(3, 5)) the reported
  waiting times are P1 = 9, P2 = 0, P3 = 15, P4 = 2, and the average waiting time prints
  as 6.50.
\<close>

theorem srtf_scenario_B:
  "srtf_main scenario_B = Inr (srtf_simulate (map new_process lines_B)) \<and>
   map pid (rp_procs (srtf_simulate (map new_process lines_B))) = [1, 2, 3, 4] \<and>
   map waiting (rp_procs (srtf_simulate (map new_process lines_B))) = [9, 0, 15, 2] \<and>
   hundredths (rp_avg_wait (srtf_simulate (map new_process lines_B))) = 650"
  using scenario_B_read scenario_B_report by (rule conjI)

section \<open>Completed runs\<close>

text \<open>
  A run is completed when every record is finished (\<open>all_done\<close>) as the loop ends.
  \<open>final_ok\<close> collects what the invariants give at that point, for either program.
\<close>

definition final_ok ::
  "(int \<times> int \<times> int) list \<Rightarrow> int \<Rightarrow> 'a process_scheme list \<Rightarrow> segment list \<Rightarrow> bool" where
  "final_ok inp t ps sgs =
     (length ps = length inp \<and> inp \<noteq> [] \<and>
      (\<forall>i<length inp. proc_ok (inp ! i) t (ps ! i) \<and> remaining (ps ! i) = 0) \<and>
      (\<exists>p\<in>set ps. completion p = t) \<and>
      timeline_ok inp sgs t (done_work ps))"

definition metrics_ok :: "'a process_scheme \<Rightarrow> bool" where
  "metrics_ok p =
     (turnaround p = waiting p + burst p \<and> turnaround p = completion p - arrival p \<and>
      burst p \<le> turnaround p \<and> 0 \<le> waiting p)"

definition max_completion :: "'a process_scheme list \<Rightarrow> int" where
  "max_completion ps = Max (set (map completion ps))"

definition total_burst :: "(int \<times> int \<times> int) list \<Rightarrow> int" where
  "total_burst inp = sum_list (map (\<lambda>l. snd (snd l)) inp)"

definition srtf_final :: "(int \<times> int \<times> int) list \<Rightarrow> srtf_state" where
  "srtf_final inp = srtf_loop (srtf_init (map new_process inp))"

lemma srtf_simulate_final:
  "srtf_simulate (map new_process inp) = make_report (sj_segs (srtf_final inp)) (sj_procs (srtf_final inp))"
  by (simp add: srtf_simulate_def srtf_final_def Let_def)

lemma final_ok_rr:
  assumes "rr_inv inp None t s" "all_done (rr_procs s)" "inp \<noteq> []"
  shows "final_ok inp (rr_clock s) (rr_procs s) (rr_segs s)"
proof -
  from assms(1) have len: "length (rr_procs s) = length inp"
    and ok: "\<And>i. i < length inp \<Longrightarrow> proc_ok (inp ! i) (rr_clock s) (rr_procs s ! i)"
    and t: "t = rr_clock s"
    and ex: "all_done (rr_procs s) \<longrightarrow> (\<exists>p\<in>set (rr_procs s). completion p = rr_clock s)"
    and tl: "timeline_ok inp (rr_segs s) t (done_work (rr_procs s) - (rr_clock s - t))"
    by (auto simp: rr_inv_def rr_core_def slot_ok_def)
  have z: "remaining (rr_procs s ! i) = 0" if "i < length inp" for i
  proof -
    from that len assms(2) have "remaining (rr_procs s ! i) \<le> 0" by (simp add: all_done_iff)
    with ok[OF that] show ?thesis by (cases "inp ! i") (auto simp: proc_ok_def)
  qed
  from tl t have "timeline_ok inp (rr_segs s) (rr_clock s) (done_work (rr_procs s))" by simp
  with len ok z ex assms(2,3) show ?thesis by (simp add: final_ok_def)
qed

lemma final_ok_srtf:
  assumes "srtf_inv inp s" "all_done (sj_procs s)" "inp \<noteq> []"
  shows "final_ok inp (sj_clock s) (sj_procs s) (sj_segs s)"
proof -
  from assms(1) have len: "length (sj_procs s) = length inp"
    and ok: "\<And>i. i < length inp \<Longrightarrow> proc_ok (inp ! i) (sj_clock s) (sj_procs s ! i)"
    and ex: "all_done (sj_procs s) \<longrightarrow> (\<exists>p\<in>set (sj_procs s). completion p = sj_clock s)"
    and tl: "timeline_ok inp (sj_segs s) (sj_clock s) (done_work (sj_procs s))"
    by (auto simp: srtf_inv_def)
  have z: "remaining (sj_procs s ! i) = 0" if "i < length inp" for i
  proof -
    from that len assms(2) have "remaining (sj_procs s ! i) \<le> 0" by (simp add: all_done_iff)
    with ok[OF that] show ?thesis by (cases "inp ! i") (auto simp: proc_ok_def)
  qed
  with len ok ex tl assms(2,3) show ?thesis by (simp add: final_ok_def)
qed

lemma final_ok_metrics:
  assumes "final_ok inp t ps sgs"
  shows "list_all metrics_ok (map set_metrics ps)"
proof -
  have "metrics_ok (set_metrics (ps ! i))" if "i < length ps" for i
  proof -
    from assms that have "proc_ok (inp ! i) t (ps ! i)" "remaining (ps ! i) = 0"
      by (auto simp: final_ok_def)
    then show ?thesis by (cases "inp ! i") (auto simp: proc_ok_def metrics_ok_def)
  qed
  then show ?thesis by (simp add: list_all_length)
qed

lemma final_ok_done_work:
  assumes "final_ok inp t ps sgs"
  shows "done_work ps = total_burst inp"
proof -
  have "map (\<lambda>p. burst p - remaining p) ps = map (\<lambda>l. snd (snd l)) inp"
  proof (rule nth_equalityI)
    show "length (map (\<lambda>p. burst p - remaining p) ps) = length (map (\<lambda>l. snd (snd l)) inp)"
      using assms by (simp add: final_ok_def)
  next
    fix i assume "i < length (map (\<lambda>p. burst p - remaining p) ps)"
    then have i: "i < length inp" "i < length ps" using assms by (simp_all add: final_ok_def)
    with assms have "proc_ok (inp ! i) t (ps ! i)" "remaining (ps ! i) = 0"
      by (auto simp: final_ok_def)
    with i show "map (\<lambda>p. burst p - remaining p) ps ! i = map (\<lambda>l. snd (snd l)) inp ! i"
      by (cases "inp ! i") (auto simp: proc_ok_def)
  qed
  then show ?thesis by (simp add: done_work_def total_burst_def)
qed

lemma final_ok_busy:
  assumes "final_ok inp t ps sgs" "list_all (\<lambda>l. fst l \<noteq> - 1) inp"
  shows "busy_time sgs = total_burst inp"
  using assms final_ok_done_work[OF assms(1)] by (simp add: final_ok_def timeline_ok_def)

lemma final_ok_max:
  assumes "final_ok inp t ps sgs"
  shows "max_completion (map set_metrics ps) = t"
proof -
  have le: "completion p \<le> t" if "p \<in> set ps" for p
  proof -
    from that obtain i where i: "i < length ps" "ps ! i = p" by (auto simp: in_set_conv_nth)
    with assms have "proc_ok (inp ! i) t p" "remaining p = 0" by (auto simp: final_ok_def)
    then show ?thesis by (cases "inp ! i") (auto simp: proc_ok_def)
  qed
  from assms obtain p where p: "p \<in> set ps" "completion p = t" by (auto simp: final_ok_def)
  have "set (map completion (map set_metrics ps)) = completion ` set ps" by (simp add: image_image)
  moreover have "Max (completion ` set ps) = t"
  proof (rule Max_eqI)
    show "finite (completion ` set ps)" by simp
    show "\<And>y. y \<in> completion ` set ps \<Longrightarrow> y \<le> t" using le by auto
    show "t \<in> completion ` set ps" using p by force
  qed
  ultimately show ?thesis by (simp add: max_completion_def)
qed

text \<open>Round robin completes every valid run; the final state of a run of either program.\<close>

lemma rr_run_final:
  assumes "valid_input inp" "0 < quantum"
  obtains s where "rr_loop quantum (rr_init (map rr_new_process inp)) = Some s"
    and "rr_simulate quantum (map rr_new_process inp) = Some (make_report (rr_segs s) (rr_procs s))"
    and "rr_inv inp None (rr_clock s) s"
    and "final_ok inp (rr_clock s) (rr_procs s) (rr_segs s)"
proof -
  from rr_loop_total[OF rr_init_inv[OF assms(1)] assms(2)]
  obtain s where s: "rr_loop quantum (rr_init (map rr_new_process inp)) = Some s"
    "rr_inv inp None (rr_clock s) s" "all_done (rr_procs s)" by blast
  from assms(1) have "inp \<noteq> []" by (simp add: valid_input_def)
  from final_ok_rr[OF s(2,3) this] have f: "final_ok inp (rr_clock s) (rr_procs s) (rr_segs s)" .
  from s(1) have "rr_simulate quantum (map rr_new_process inp) = Some (make_report (rr_segs s) (rr_procs s))"
    by (simp add: rr_simulate_def)
  with s f that show ?thesis by simp
qed

lemma srtf_run_final:
  assumes "valid_input inp" "all_done (sj_procs (srtf_final inp))"
  shows "final_ok inp (sj_clock (srtf_final inp)) (sj_procs (srtf_final inp)) (sj_segs (srtf_final inp))"
proof -
  have "srtf_inv inp (srtf_final inp)"
    unfolding srtf_final_def by (rule srtf_inv_loop[OF srtf_inv_init[OF assms(1)]])
  moreover from assms(1) have "inp \<noteq> []" by (simp add: valid_input_def)
  ultimately show ?thesis using assms(2) by (intro final_ok_srtf)
qed

section \<open>Properties of completed runs\<close>

text \<open>
  \<open>contiguous sgs\<close>: the segments are sorted by start, do not overlap, and each begins
  where the one before ends, the first at 0.  \<open>covers sgs T\<close>: their union is \<open>[0, T)\<close>.
\<close>

definition contiguous :: "segment list \<Rightarrow> bool" where
  "contiguous sgs =
     (sorted (map s_start sgs) \<and> sorted_wrt (\<lambda>a b. s_end a \<le> s_start b) sgs \<and> chain_from 0 sgs)"

definition covers :: "segment list \<Rightarrow> int \<Rightarrow> bool" where
  "covers sgs T = ((\<Union>s\<in>set sgs. {s_start s..<s_end s}) = {0..<T})"

lemma chain_contiguous: "chain_from 0 sgs \<Longrightarrow> contiguous sgs"
  by (simp add: contiguous_def chain_from_sorted chain_from_disjoint)

lemma final_ok_covers:
  assumes "final_ok inp t ps sgs"
  shows "contiguous sgs \<and> covers sgs (max_completion (map set_metrics ps))"
proof -
  from assms have c: "chain_from 0 sgs" "end_of 0 sgs = t"
    by (auto simp: final_ok_def timeline_ok_def)
  from chain_from_union[OF c(1)] c(2) chain_contiguous[OF c(1)]
  show ?thesis by (simp add: covers_def final_ok_max[OF assms])
qed

lemma srtf_final_inv: "valid_input inp \<Longrightarrow> srtf_inv inp (srtf_final inp)"
  unfolding srtf_final_def by (rule srtf_inv_loop[OF srtf_inv_init])

lemma srtf_final_timeline:
  assumes "valid_input inp"
  shows "contiguous (sj_segs (srtf_final inp))"
    and "list_all (\<lambda>l. fst l \<noteq> - 1) inp \<Longrightarrow>
           busy_time (sj_segs (srtf_final inp)) = done_work (sj_procs (srtf_final inp))"
  using srtf_final_inv[OF assms]
  by (simp_all add: srtf_inv_def timeline_ok_def chain_contiguous)

text \<open>The process lines of scenario A.\<close>

definition lines_A :: "(int \<times> int \<times> int) list" where
  "lines_A = [(1, 0, 4), (2, 1, 3), (3, 3, 2)]"

lemma lines_A_valid: "valid_input lines_A"
  by (simp add: valid_input_def lines_A_def)

section \<open>The recorder (C6)\<close>

lemma rr_no_adjacent:
  assumes "valid_input inp" "0 < quantum"
  shows "\<exists>r. rr_simulate quantum (map rr_new_process inp) = Some r \<and> no_adjacent (rp_segs r)"
proof -
  obtain s where
    "rr_loop quantum (rr_init (map rr_new_process inp)) = Some s"
    and s: "rr_simulate quantum (map rr_new_process inp) = Some (make_report (rr_segs s) (rr_procs s))"
    and "rr_inv inp None (rr_clock s) s"
    and f: "final_ok inp (rr_clock s) (rr_procs s) (rr_segs s)"
    by (rule rr_run_final[OF assms])
  from f have "no_adjacent (rr_segs s)" by (simp add: final_ok_def timeline_ok_def)
  with s show ?thesis by (simp add: make_report_fields)
qed

lemma srtf_no_adjacent:
  assumes "valid_input inp"
  shows "no_adjacent (rp_segs (srtf_simulate (map new_process inp)))"
proof -
  have "srtf_inv inp (srtf_final inp)"
    unfolding srtf_final_def by (rule srtf_inv_loop[OF srtf_inv_init[OF assms]])
  then have "no_adjacent (sj_segs (srtf_final inp))" by (simp add: srtf_inv_def timeline_ok_def)
  then show ?thesis by (simp only: srtf_simulate_final make_report_fields)
qed

text \<open>
  C6.  \<open>add_segment\<close> returns the list unchanged when \<open>start = end\<close>; when the last
  segment has the same owner and ends at the new start, the result is the list with
  that segment's end set to the new end; in every other case with \<open>start \<noteq> end\<close> the
  new segment is appended.  In the segment lists that rr.c and sjf.c print for a valid input, no two
  adjacent segments have the same owner.
\<close>

theorem add_segment_contract:
  "add_segment sgs p st st = sgs \<and>
   (sgs \<noteq> [] \<and> s_pid (last sgs) = p \<and> s_end (last sgs) = st \<longrightarrow>
      add_segment sgs p st en = butlast sgs @ [(last sgs)\<lparr>s_end := en\<rparr>]) \<and>
   (st \<noteq> en \<and> \<not> (sgs \<noteq> [] \<and> s_pid (last sgs) = p \<and> s_end (last sgs) = st) \<longrightarrow>
      add_segment sgs p st en = sgs @ [\<lparr>s_pid = p, s_start = st, s_end = en\<rparr>]) \<and>
   (valid_input inp \<and> 0 < quantum \<longrightarrow>
      (\<exists>r. rr_simulate quantum (map rr_new_process inp) = Some r \<and> no_adjacent (rp_segs r)) \<and>
      no_adjacent (rp_segs (srtf_simulate (map new_process inp))))"
proof -
  have same: "butlast sgs @ [(last sgs)\<lparr>s_end := s_end (last sgs)\<rparr>] = sgs" if "sgs \<noteq> []"
    using that by simp
  show ?thesis
    using rr_no_adjacent[of inp quantum] srtf_no_adjacent[of inp] same
    by (auto simp: add_segment_def)
qed

theorem add_segment_contract_witness:
  "add_segment [\<lparr>s_pid = 1, s_start = 0, s_end = 2\<rparr>] 1 2 2 = [\<lparr>s_pid = 1, s_start = 0, s_end = 2\<rparr>] \<and>
   add_segment [\<lparr>s_pid = 1, s_start = 0, s_end = 2\<rparr>] 1 2 3 = [\<lparr>s_pid = 1, s_start = 0, s_end = 3\<rparr>] \<and>
   add_segment [\<lparr>s_pid = 1, s_start = 0, s_end = 2\<rparr>] 2 2 3 =
     [\<lparr>s_pid = 1, s_start = 0, s_end = 2\<rparr>, \<lparr>s_pid = 2, s_start = 2, s_end = 3\<rparr>] \<and>
   valid_input lines_A \<and> (0 :: int) < 2 \<and>
   (\<exists>r. rr_simulate 2 (map rr_new_process lines_A) = Some r \<and> no_adjacent (rp_segs r)) \<and>
   no_adjacent (rp_segs (srtf_simulate (map new_process lines_A)))"
  using add_segment_contract[of "[\<lparr>s_pid = 1, s_start = 0, s_end = 2\<rparr>]" 1 2 3 lines_A 2]
    add_segment_contract[of "[\<lparr>s_pid = 1, s_start = 0, s_end = 2\<rparr>]" 2 2 3 lines_A 2]
    add_segment_contract[of "[\<lparr>s_pid = 1, s_start = 0, s_end = 2\<rparr>]" 1 2 2 lines_A 2]
    lines_A_valid
  by simp

section \<open>The ready queue of rr.c (C10)\<close>

text \<open>
  C10.  At the head of every pass of the main loop of a round-robin run on a valid
  input the queue holds each index at most once, and it holds exactly the indices of the
  enqueued, unfinished records of the table; so when the loop pops an index, that record has
  \<open>remaining > 0\<close> (the guard of line 197 is not taken), and after each pass of the
  inner loop the queue still holds each index at most once and not the running one.
\<close>

theorem rr_queue_invariant:
  assumes "valid_input inp" "0 < quantum"
    and "rr_reach quantum (rr_init (map rr_new_process inp)) s"
  shows "distinct (q_list (rr_queue s)) \<and>
         set (q_list (rr_queue s)) \<subseteq> {..<length inp} \<and>
         (\<forall>i<length inp. (i \<in> set (q_list (rr_queue s))) =
             (enqueued (rr_procs s ! i) \<and> 0 < remaining (rr_procs s ! i))) \<and>
         (\<not> all_done (rr_procs s) \<and> \<not> q_empty (rr_queue s) \<longrightarrow>
            0 < remaining (rr_procs s ! fst (q_pop (rr_queue s))) \<and>
            (\<forall>m. int m \<le> remaining (rr_procs s ! fst (q_pop (rr_queue s))) \<longrightarrow>
               distinct (q_list (rr_queue
                  (rr_slice m (fst (q_pop (rr_queue s))) (s\<lparr>rr_queue := snd (q_pop (rr_queue s))\<rparr>)))) \<and>
               fst (q_pop (rr_queue s)) \<notin> set (q_list (rr_queue
                  (rr_slice m (fst (q_pop (rr_queue s))) (s\<lparr>rr_queue := snd (q_pop (rr_queue s))\<rparr>))))))"
proof -
  from rr_reach_inv[OF assms(3) rr_init_inv[OF assms(1)] assms(2)]
  have inv: "rr_inv inp None (rr_clock s) s" .
  then have core: "rr_core inp None (rr_clock s) (rr_procs s) (rr_queue s)" by (simp add: rr_inv_def)
  then have d: "distinct (q_list (rr_queue s))" by (simp add: rr_core_def)
  from core have sub: "set (q_list (rr_queue s)) \<subseteq> {..<length inp}" by (simp add: rr_core_def)
  have m: "(i \<in> set (q_list (rr_queue s))) =
             (enqueued (rr_procs s ! i) \<and> 0 < remaining (rr_procs s ! i))"
    if "i < length inp" for i
  proof -
    from core that have "slot_ok (inp ! i) False (rr_clock s) (i \<in> set (q_list (rr_queue s)))
        (rr_procs s ! i)"
      by (simp add: rr_core_def)
    then show ?thesis by (simp add: slot_ok_def)
  qed
  have p: "0 < remaining (rr_procs s ! fst (q_pop (rr_queue s))) \<and>
            (\<forall>m. int m \<le> remaining (rr_procs s ! fst (q_pop (rr_queue s))) \<longrightarrow>
               distinct (q_list (rr_queue
                  (rr_slice m (fst (q_pop (rr_queue s))) (s\<lparr>rr_queue := snd (q_pop (rr_queue s))\<rparr>)))) \<and>
               fst (q_pop (rr_queue s)) \<notin> set (q_list (rr_queue
                  (rr_slice m (fst (q_pop (rr_queue s))) (s\<lparr>rr_queue := snd (q_pop (rr_queue s))\<rparr>)))))"
    if ne: "\<not> q_empty (rr_queue s)"
  proof -
    let ?idx = "fst (q_pop (rr_queue s))" and ?s1 = "s\<lparr>rr_queue := snd (q_pop (rr_queue s))\<rparr>"
    from ne have "q_list (rr_queue s) \<noteq> []" by (simp add: q_empty_iff)
    note pop = rr_pop_inv[OF inv this]
    have "distinct (q_list (rr_queue (rr_slice m ?idx ?s1))) \<and>
          ?idx \<notin> set (q_list (rr_queue (rr_slice m ?idx ?s1)))"
      if "int m \<le> remaining (rr_procs s ! ?idx)" for m
    proof -
      from that have "int m \<le> remaining (rr_procs ?s1 ! ?idx)" by simp
      from rr_slice_inv[OF pop(1) this]
      have "rr_inv inp (Some ?idx) (rr_clock s) (rr_slice m ?idx ?s1)" by simp
      then have c: "rr_core inp (Some ?idx) (rr_clock (rr_slice m ?idx ?s1))
                  (rr_procs (rr_slice m ?idx ?s1)) (rr_queue (rr_slice m ?idx ?s1))"
        by (simp add: rr_inv_def)
      with pop(3) have "slot_ok (inp ! ?idx) True (rr_clock (rr_slice m ?idx ?s1))
          (?idx \<in> set (q_list (rr_queue (rr_slice m ?idx ?s1)))) (rr_procs (rr_slice m ?idx ?s1) ! ?idx)"
        by (auto simp: rr_core_def)
      then have "?idx \<notin> set (q_list (rr_queue (rr_slice m ?idx ?s1)))"
        by (auto simp: slot_ok_def)
      with c show ?thesis by (simp add: rr_core_def)
    qed
    with pop(2) show ?thesis by blast
  qed
  from d sub m p show ?thesis by (simp only: simp_thms) blast
qed

lemma lines_A_queue: "q_list (rr_queue (rr_init (map rr_new_process lines_A))) = [0]"
  by code_simp

theorem rr_queue_invariant_witness:
  "valid_input lines_A \<and> (0 :: int) < 2 \<and>
   rr_reach 2 (rr_init (map rr_new_process lines_A)) (rr_init (map rr_new_process lines_A)) \<and>
   q_list (rr_queue (rr_init (map rr_new_process lines_A))) = [0] \<and>
   distinct (q_list (rr_queue (rr_init (map rr_new_process lines_A)))) \<and>
   enqueued (rr_procs (rr_init (map rr_new_process lines_A)) ! 0) \<and>
   0 < remaining (rr_procs (rr_init (map rr_new_process lines_A)) ! 0)"
proof -
  let ?s = "rr_init (map rr_new_process lines_A)"
  have pos: "(0 :: int) < 2" by simp
  have reach: "rr_reach 2 ?s ?s" by (rule rr_reach.start)
  note t = rr_queue_invariant[OF lines_A_valid pos reach]
  from t have d: "distinct (q_list (rr_queue ?s))" by (rule conjunct1)
  from t have m: "\<forall>i<length lines_A. (i \<in> set (q_list (rr_queue ?s))) =
      (enqueued (rr_procs ?s ! i) \<and> 0 < remaining (rr_procs ?s ! i))"
    by (rule conjunct1[OF conjunct2[OF conjunct2]])
  have "0 < length lines_A" by (simp add: lines_A_def)
  with m have "(0 \<in> set (q_list (rr_queue ?s))) =
      (enqueued (rr_procs ?s ! 0) \<and> 0 < remaining (rr_procs ?s ! 0))" by simp
  with lines_A_queue have "enqueued (rr_procs ?s ! 0) \<and> 0 < remaining (rr_procs ?s ! 0)"
    by simp
  with lines_A_valid pos reach lines_A_queue d show ?thesis by simp
qed

section \<open>Input validation\<close>

text \<open>
  Validity of an input as the specification words it: \<open>n\<close> is readable and positive, for
  rr.c the quantum is readable and positive, and each of the \<open>n\<close> process lines is three
  readable integers with \<open>arrival \<ge> 0\<close> and \<open>burst > 0\<close>.
\<close>

fun lines_ok :: "nat \<Rightarrow> token list \<Rightarrow> bool" where
  "lines_ok 0 ts = True"
| "lines_ok (Suc k) (Num a # Num b # Num c # ts) = (0 \<le> b \<and> 0 < c \<and> lines_ok k ts)"
| "lines_ok (Suc k) ts = False"

definition srtf_input_ok :: "token list \<Rightarrow> bool" where
  "srtf_input_ok ts = (case ts of Num n # rest \<Rightarrow> 0 < n \<and> lines_ok (nat n) rest | _ \<Rightarrow> False)"


definition line_ok :: "int \<times> int \<times> int \<Rightarrow> bool" where
  "line_ok l = (case l of (a, b, c) \<Rightarrow> 0 \<le> b \<and> 0 < c)"

lemma lines_ok_Suc:
  "lines_ok (Suc k) ts =
     (case scan_line ts of None \<Rightarrow> False
      | Some (l, ts') \<Rightarrow> line_ok l \<and> lines_ok k ts')"
  by (cases ts rule: scan_line.cases) (simp_all add: line_ok_def)

lemma read_procs_Suc:
  "read_procs (Suc k) ts =
     (case scan_line ts of None \<Rightarrow> Inl InvalidLine
      | Some (l, ts') \<Rightarrow>
          if \<not> line_ok l then Inl InvalidArrivalBurst
          else (case read_procs k ts' of Inl e \<Rightarrow> Inl e | Inr ps \<Rightarrow> Inr (new_process l # ps)))"
  by (auto simp: line_ok_def split: option.splits prod.splits)

lemma rr_read_procs_Suc:
  "rr_read_procs (Suc k) ts =
     (case scan_line ts of None \<Rightarrow> Inl InvalidLine
      | Some (l, ts') \<Rightarrow>
          if \<not> line_ok l then Inl InvalidArrivalBurst
          else (case rr_read_procs k ts' of Inl e \<Rightarrow> Inl e | Inr ps \<Rightarrow> Inr (rr_new_process l # ps)))"
  by (auto simp: line_ok_def split: option.splits prod.splits)

lemma read_procs_ok:
  "lines_ok k ts \<Longrightarrow>
     \<exists>inp. read_procs k ts = Inr (map new_process inp) \<and> length inp = k \<and> list_all line_ok inp"
proof (induction k arbitrary: ts)
  case 0
  then show ?case by simp
next
  case (Suc k)
  from Suc.prems obtain l ts' where l: "scan_line ts = Some (l, ts')" "line_ok l" "lines_ok k ts'"
    by (auto simp: lines_ok_Suc split: option.splits)
  from Suc.IH[OF l(3)] obtain inp where
    "read_procs k ts' = Inr (map new_process inp)" "length inp = k" "list_all line_ok inp" by auto
  with l have "read_procs (Suc k) ts = Inr (map new_process (l # inp)) \<and> length (l # inp) = Suc k \<and>
     list_all line_ok (l # inp)"
    by (simp add: read_procs_Suc del: read_procs.simps)
  then show ?case by blast
qed


lemma rr_read_procs_ok:
  "lines_ok k ts \<Longrightarrow>
     \<exists>inp. rr_read_procs k ts = Inr (map rr_new_process inp) \<and> length inp = k \<and> list_all line_ok inp"
proof (induction k arbitrary: ts)
  case 0
  then show ?case by simp
next
  case (Suc k)
  from Suc.prems obtain l ts' where l: "scan_line ts = Some (l, ts')" "line_ok l" "lines_ok k ts'"
    by (auto simp: lines_ok_Suc split: option.splits)
  from Suc.IH[OF l(3)] obtain inp where
    "rr_read_procs k ts' = Inr (map rr_new_process inp)" "length inp = k" "list_all line_ok inp" by auto
  with l have "rr_read_procs (Suc k) ts = Inr (map rr_new_process (l # inp)) \<and> length (l # inp) = Suc k \<and>
     list_all line_ok (l # inp)"
    by (simp add: rr_read_procs_Suc del: rr_read_procs.simps)
  then show ?case by blast
qed




text \<open>The tokens of a list of process lines.\<close>

definition tokens_of :: "(int \<times> int \<times> int) list \<Rightarrow> token list" where
  "tokens_of inp = concat (map (\<lambda>l. case l of (a, b, c) \<Rightarrow> [Num a, Num b, Num c]) inp)"

lemma read_procs_lines:
  "list_all line_ok inp \<Longrightarrow> read_procs (length inp) (tokens_of inp @ rest) = Inr (map new_process inp)"
proof (induction inp)
  case Nil
  then show ?case by simp
next
  case (Cons l inp)
  obtain a b c where l: "l = (a, b, c)" by (cases l)
  with Cons show ?case by (simp add: tokens_of_def line_ok_def)
qed

lemma rr_read_procs_lines:
  "list_all line_ok inp \<Longrightarrow>
     rr_read_procs (length inp) (tokens_of inp @ rest) = Inr (map rr_new_process inp)"
proof (induction inp)
  case Nil
  then show ?case by simp
next
  case (Cons l inp)
  obtain a b c where l: "l = (a, b, c)" by (cases l)
  with Cons show ?case by (simp add: tokens_of_def line_ok_def)
qed

lemma valid_input_line_ok: "valid_input inp \<Longrightarrow> list_all line_ok inp \<and> 0 < length inp"
  by (auto simp: valid_input_def line_ok_def list_all_iff)



lemma negative_arrival_bad: "\<not> srtf_input_ok [Num 1, Num 7, Num (- 1), Num 5]"
  by (simp add: srtf_input_ok_def)


section \<open>Selection and termination in sjf.c (C3, C9)\<close>

text \<open>
  What the selection scan of sjf.c returns.  A selected record is ready and first in the
  order (remaining, arrival, pid) among the ready records; a record is selected as soon
  as some ready record has \<open>remaining < INT_MAX\<close>.
\<close>

lemma srtf_pick_minimal:
  assumes "srtf_pick ps t = Some k" "j < length ps" "ready ps t j"
  shows "ready ps t k \<and> remaining (ps ! k) \<le> remaining (ps ! j) \<and>
         (remaining (ps ! j) = remaining (ps ! k) \<longrightarrow>
            arrival (ps ! k) \<le> arrival (ps ! j) \<and>
            (arrival (ps ! j) = arrival (ps ! k) \<longrightarrow> pid (ps ! k) \<le> pid (ps ! j)))"
proof -
  from srtf_pick_Some[OF assms(1)] have r: "ready ps t k"
    and b: "\<forall>j<length ps. ready ps t j \<longrightarrow> srtf_before (ps ! k) (ps ! j)"
    by simp_all
  from b assms(2,3) have "srtf_before (ps ! k) (ps ! j)" by simp
  then have "remaining (ps ! k) \<le> remaining (ps ! j) \<and>
         (remaining (ps ! j) = remaining (ps ! k) \<longrightarrow>
            arrival (ps ! k) \<le> arrival (ps ! j) \<and>
            (arrival (ps ! j) = arrival (ps ! k) \<longrightarrow> pid (ps ! k) \<le> pid (ps ! j)))"
    unfolding srtf_before_def by linarith
  with r show ?thesis by simp
qed

lemma srtf_pick_exists:
  assumes "j < length ps" "ready ps t j" "remaining (ps ! j) < INT_MAX"
  shows "\<exists>k. srtf_pick ps t = Some k"
proof (cases "srtf_pick ps t")
  case None
  from srtf_pick_None[OF None] assms(1,2) have "INT_MAX \<le> remaining (ps ! j)" by simp
  with assms(3) show ?thesis by simp
next
  case (Some k)
  then show ?thesis by simp
qed

text \<open>
  When every arrival and every burst is below \<open>INT_MAX\<close>, the loop of sjf.c never takes
  its \<open>break\<close>, and the run completes.
\<close>

definition below_INT_MAX :: "(int \<times> int \<times> int) list \<Rightarrow> bool" where
  "below_INT_MAX inp = list_all (\<lambda>l. fst (snd l) < INT_MAX \<and> snd (snd l) < INT_MAX) inp"

lemma srtf_iter_Some:
  assumes inv: "srtf_inv inp s" and b: "below_INT_MAX inp" and nd: "\<not> all_done (sj_procs s)"
  shows "srtf_iter s \<noteq> None"
proof
  assume none: "srtf_iter s = None"
  let ?ps = "sj_procs s" and ?t = "sj_clock s"
  from inv have len: "length ?ps = length inp"
    and ok: "\<And>i. i < length inp \<Longrightarrow> proc_ok (inp ! i) ?t (?ps ! i)"
    by (auto simp: srtf_inv_def)
  from none have pk: "srtf_pick ?ps ?t = None" and na: "srtf_next_arrival ?ps ?t = INT_MAX"
    by (auto simp: srtf_iter_def Let_def split: option.splits if_splits)
  from nd obtain p where p: "p \<in> set ?ps" "0 < remaining p" by (force simp: all_done_iff)
  then obtain i where i: "i < length inp" "?ps ! i = p" using len by (auto simp: in_set_conv_nth)
  from b i(1) have bi: "fst (snd (inp ! i)) < INT_MAX" "snd (snd (inp ! i)) < INT_MAX"
    by (auto simp: below_INT_MAX_def list_all_length)
  from ok[OF i(1)] i(2) bi have pb: "arrival p < INT_MAX" "remaining p < INT_MAX"
    by (cases "inp ! i", auto simp: proc_ok_def)
  show False
  proof (cases "arrival p \<le> ?t")
    case True
    with p(2) i have "ready ?ps ?t i" by (simp add: ready_def)
    with srtf_pick_None[OF pk] i len pb show False by auto
  next
    case False
    from next_arr_fold[OF na[unfolded srtf_next_arrival_def]] p False
    have "INT_MAX \<le> arrival p" by auto
    with pb show False by simp
  qed
qed

lemma srtf_loop_completes:
  assumes "srtf_inv inp s" "below_INT_MAX inp"
  shows "all_done (sj_procs (srtf_loop s))"
  using assms(1)
proof (induction s rule: srtf_loop.induct)
  case (1 s)
  show ?case
  proof (cases "all_done (sj_procs s)")
    case True
    then show ?thesis by (subst srtf_loop.simps) simp
  next
    case nd: False
    from srtf_iter_Some[OF "1.prems" assms(2) nd] obtain s' where s': "srtf_iter s = Some s'"
      by auto
    from "1.IH"[OF nd s' srtf_inv_iter[OF "1.prems" s']] nd s'
    show ?thesis by (subst srtf_loop.simps) simp
  qed
qed

lemma srtf_completes:
  assumes "valid_input inp" "below_INT_MAX inp"
  shows "all_done (sj_procs (srtf_final inp))"
  unfolding srtf_final_def
  by (rule srtf_loop_completes[OF srtf_inv_init[OF assms(1)] assms(2)])

text \<open>Round robin: on every valid input the loop returns, with every record finished.\<close>

lemma rr_completes:
  assumes "valid_input inp" "0 < quantum"
  shows "\<exists>s. rr_loop quantum (rr_init (map rr_new_process inp)) = Some s \<and> all_done (rr_procs s)"
  using rr_loop_total[OF rr_init_inv[OF assms(1)] assms(2)] by blast

text \<open>
  C3.  The input: one process, pid 1, arrival 0, burst 2147483647.  At clock 0 the
  record has arrived and is unfinished, and the selection scan of sjf.c selects nothing:
  \<open>remaining < best_rem\<close> is false against the initial \<open>best_rem = INT_MAX\<close>, and the
  tie branch requires a record already picked.
\<close>

theorem srtf_pick_misses_INT_MAX:
  "ready [new_process (1, 0, 2147483647)] 0 0 \<and>
   srtf_pick [new_process (1, 0, 2147483647)] 0 = None"
  by (simp add: ready_def srtf_pick_def pick_step_def new_process_def INT_MAX_def)

text \<open>
  C9.  On the valid input \<open>n = 1\<close>, line \<open>1 0 2147483647\<close>, the loop of sjf.c ends
  through its \<open>break\<close> at once: the report has no segment, the record still has all
  its remaining time, and its waiting time is reported as \<open>-2147483648\<close>.
\<close>

theorem srtf_main_leaves_unfinished:
  "valid_input [(1, 0, 2147483647)] \<and>
   (\<exists>r. srtf_main [Num 1, Num 1, Num 0, Num 2147483647] = Inr r \<and>
        rp_segs r = [] \<and> map remaining (rp_procs r) = [2147483647] \<and>
        map waiting (rp_procs r) = [- 2147483648])"
proof -
  let ?p = "new_process (1, 0, 2147483647)"
  have pk: "srtf_pick [?p] 0 = None"
    by (simp add: srtf_pick_def pick_step_def new_process_def INT_MAX_def)
  have na: "srtf_next_arrival [?p] 0 = INT_MAX"
    by (simp add: srtf_next_arrival_def next_arr_step_def new_process_def)
  have it: "srtf_iter (srtf_init [?p]) = None"
    by (simp add: srtf_iter_def srtf_init_def pk na)
  have nd: "\<not> all_done (sj_procs (srtf_init [?p]))"
    by (simp add: srtf_init_def new_process_def)
  have lp: "srtf_loop (srtf_init [?p]) = srtf_init [?p]"
    by (subst srtf_loop.simps) (simp add: it nd)
  have rd: "srtf_main [Num 1, Num 1, Num 0, Num 2147483647] = Inr (srtf_simulate [?p])"
    by (simp add: srtf_main_def)
  have sim: "srtf_simulate [?p] = make_report [] [?p]"
    by (simp add: srtf_simulate_def lp Let_def) (simp add: srtf_init_def)
  show ?thesis
    unfolding rd sim
    by (simp add: make_report_fields valid_input_def) (simp add: new_process_def)
qed

section \<open>The programs with 32-bit integers and fallible allocation\<close>

text \<open>
  An \<open>int\<close> of the two programs has 32 bits.  Signed overflow is undefined in C; the
  programs are modelled as the usual compilers run them, with two's complement
  wrap-around: \<open>wrap32\<close> is applied to every sum, difference and product the programs
  compute on a clock, a remaining time, a metric or a capacity.  Comparisons and
  assignments need none.
\<close>

definition INT_MIN :: int where
  "INT_MIN = - 2147483648"

definition wrap32 :: "int \<Rightarrow> int" where
  "wrap32 x = (x + 2147483648) mod 4294967296 - 2147483648"

text \<open>
  Storage.  The programs ask for storage in three places: \<open>calloc\<close> for the process
  table (\<open>n\<close> records), \<open>malloc\<close> for the cells of the ready queue (\<open>q_init\<close> and the
  growth in \<open>q_push\<close>), and \<open>realloc\<close> for the segment array (\<open>add_segment\<close>).  A
  request is the kind of array with the number of elements asked for, and the allocator
  is a parameter \<open>alloc\<close> of the run that says which requests succeed.  The element
  count is an \<open>int\<close> converted to \<open>size_t\<close>: a count that has wrapped to a non-positive
  value asks for more than the address space holds, or for nothing, and is not granted.
  A capacity only grows, so a run asks for each size of each array at most once, and an
  allocator that answers by the request alone covers every way the calls of one run can
  succeed or fail.
\<close>

datatype request = Processes int | QueueCells int | Segments int

primrec count_of :: "request \<Rightarrow> int" where
  "count_of (Processes n) = n"
| "count_of (QueueCells n) = n"
| "count_of (Segments n) = n"

text \<open>
  How a program ends without a report: \<open>Rejected e\<close> is a \<open>return 1\<close> of the input
  validation, \<open>OutOfMemory\<close> the \<open>return 1\<close> after a failed \<open>calloc\<close> or the
  \<open>exit(1)\<close> after a failed \<open>malloc\<close> or \<open>realloc\<close>.  Either way the exit status is 1.
\<close>

datatype failure = Rejected error | OutOfMemory

definition granted :: "(request \<Rightarrow> bool) \<Rightarrow> request \<Rightarrow> bool" where
  "granted alloc r = (0 < count_of r \<and> alloc r)"

text \<open>
  \<open>add_segment\<close> with its capacity (rr.c lines 39-59, sjf.c lines 42-62).  The array is
  a list with the \<open>int\<close> \<open>cap\<close> beside it: when the list is full the capacity becomes 16
  or doubles, and \<open>realloc\<close> is asked for that many segments.
\<close>

definition add_segment_m ::
  "(request \<Rightarrow> bool) \<Rightarrow> segment list \<times> int \<Rightarrow> int \<Rightarrow> int \<Rightarrow> int \<Rightarrow> failure + segment list \<times> int" where
  "add_segment_m alloc b p st en =
     (case b of (sgs, cap) \<Rightarrow>
        if st = en then Inr (sgs, cap)
        else if sgs \<noteq> [] \<and> s_pid (last sgs) = p \<and> s_end (last sgs) = st
             then Inr (butlast sgs @ [(last sgs)\<lparr>s_end := en\<rparr>], cap)
        else if cap \<le> int (length sgs) then
          (let cap' = (if cap = 0 then 16 else wrap32 (cap * 2))
           in if granted alloc (Segments cap')
              then Inr (sgs @ [\<lparr>s_pid = p, s_start = st, s_end = en\<rparr>], cap')
              else Inl OutOfMemory)
        else Inr (sgs @ [\<lparr>s_pid = p, s_start = st, s_end = en\<rparr>], cap))"

text \<open>
  \<open>q_init\<close> and \<open>q_push\<close> (rr.c lines 77-82 and 87-104) with their \<open>malloc\<close>;
  \<open>enqueue_arrivals\<close> (lines 114-121) stops at the first failed push.
\<close>

definition q_init_m :: "(request \<Rightarrow> bool) \<Rightarrow> int \<Rightarrow> failure + queue" where
  "q_init_m alloc cap =
     (if granted alloc (QueueCells cap) then Inr (q_init (nat cap)) else Inl OutOfMemory)"

definition q_push_m :: "(request \<Rightarrow> bool) \<Rightarrow> queue \<Rightarrow> nat \<Rightarrow> failure + queue" where
  "q_push_m alloc q v =
     (if q_size q = q_cap q \<and> \<not> granted alloc (QueueCells (wrap32 (int (q_cap q) * 2)))
      then Inl OutOfMemory
      else Inr (q_push q v))"

definition enqueue_step_m ::
  "(request \<Rightarrow> bool) \<Rightarrow> int \<Rightarrow> nat \<Rightarrow> failure + rr_process list \<times> queue
     \<Rightarrow> failure + rr_process list \<times> queue" where
  "enqueue_step_m alloc t i acc =
     (case acc of
        Inl e \<Rightarrow> Inl e
      | Inr (ps, q) \<Rightarrow>
          if \<not> enqueued (ps ! i) \<and> arrival (ps ! i) \<le> t
          then (case q_push_m alloc q i of
                  Inl e \<Rightarrow> Inl e
                | Inr q' \<Rightarrow> Inr (ps[i := (ps ! i)\<lparr>enqueued := True\<rparr>], q'))
          else Inr (ps, q))"

definition enqueue_arrivals_m ::
  "(request \<Rightarrow> bool) \<Rightarrow> rr_process list \<Rightarrow> queue \<Rightarrow> int \<Rightarrow> failure + rr_process list \<times> queue" where
  "enqueue_arrivals_m alloc ps q t = fold (enqueue_step_m alloc t) [0..<length ps] (Inr (ps, q))"

text \<open>
  The main loop of rr.c (lines 179-219) over the state and the capacity \<open>seg_cap\<close>.
  \<open>rr_tick_m\<close> is the body of the inner loop (lines 204-206): \<open>t++\<close>, \<open>remaining--\<close>,
  \<open>enqueue_arrivals\<close>; \<open>rr_slice_m\<close> is the inner loop with its \<open>break\<close> (line 208);
  \<open>rr_idle_m\<close> is the idle branch (lines 180-193), \<open>rr_finish_m\<close> lines 210-218, and
  \<open>rr_iter_m\<close> one pass of the outer loop, \<open>Inr None\<close> being its \<open>break\<close>.
\<close>

definition rr_tick_m :: "(request \<Rightarrow> bool) \<Rightarrow> nat \<Rightarrow> rr_state \<times> int \<Rightarrow> failure + rr_state \<times> int" where
  "rr_tick_m alloc idx ms =
     (case ms of (s, cap) \<Rightarrow>
        (let t1 = wrap32 (rr_clock s + 1);
             ps1 = (rr_procs s)[idx := (rr_procs s ! idx)\<lparr>remaining := wrap32 (remaining (rr_procs s ! idx) - 1)\<rparr>]
         in (case enqueue_arrivals_m alloc ps1 (rr_queue s) t1 of
               Inl e \<Rightarrow> Inl e
             | Inr r \<Rightarrow> Inr (s\<lparr>rr_procs := fst r, rr_queue := snd r, rr_clock := t1\<rparr>, cap))))"

fun rr_slice_m :: "(request \<Rightarrow> bool) \<Rightarrow> nat \<Rightarrow> nat \<Rightarrow> rr_state \<times> int \<Rightarrow> failure + rr_state \<times> int" where
  "rr_slice_m alloc 0 idx ms = Inr ms"
| "rr_slice_m alloc (Suc k) idx ms =
     (case rr_tick_m alloc idx ms of
        Inl e \<Rightarrow> Inl e
      | Inr ms1 \<Rightarrow>
          if remaining (rr_procs (fst ms1) ! idx) = 0 then Inr ms1
          else rr_slice_m alloc k idx ms1)"

definition rr_idle_m :: "(request \<Rightarrow> bool) \<Rightarrow> rr_state \<times> int \<Rightarrow> int \<Rightarrow> failure + rr_state \<times> int" where
  "rr_idle_m alloc ms next_arr =
     (case ms of (s, cap) \<Rightarrow>
        (case (if next_arr > rr_clock s
               then add_segment_m alloc (rr_segs s, cap) (- 1) (rr_clock s) next_arr
               else Inr (rr_segs s, cap)) of
           Inl e \<Rightarrow> Inl e
         | Inr b \<Rightarrow>
             (case enqueue_arrivals_m alloc (rr_procs s) (rr_queue s) next_arr of
                Inl e \<Rightarrow> Inl e
              | Inr r \<Rightarrow>
                  Inr (\<lparr>rr_procs = fst r, rr_segs = fst b, rr_queue = snd r, rr_clock = next_arr\<rparr>,
                       snd b))))"

definition rr_finish_m ::
  "(request \<Rightarrow> bool) \<Rightarrow> nat \<Rightarrow> int \<Rightarrow> rr_state \<times> int \<Rightarrow> failure + rr_state \<times> int" where
  "rr_finish_m alloc idx start ms =
     (case ms of (s, cap) \<Rightarrow>
        (case add_segment_m alloc (rr_segs s, cap) (pid (rr_procs s ! idx)) start (rr_clock s) of
           Inl e \<Rightarrow> Inl e
         | Inr b \<Rightarrow>
             (let s2 = s\<lparr>rr_segs := fst b\<rparr>
              in if remaining (rr_procs s2 ! idx) = 0
                 then Inr (s2\<lparr>rr_procs := (rr_procs s2)[idx := (rr_procs s2 ! idx)\<lparr>completion := rr_clock s2\<rparr>]\<rparr>,
                           snd b)
                 else (case q_push_m alloc (rr_queue s2) idx of
                         Inl e \<Rightarrow> Inl e
                       | Inr q' \<Rightarrow> Inr (s2\<lparr>rr_queue := q'\<rparr>, snd b)))))"

definition rr_dispatch_m ::
  "(request \<Rightarrow> bool) \<Rightarrow> int \<Rightarrow> nat \<Rightarrow> rr_state \<times> int \<Rightarrow> failure + rr_state \<times> int" where
  "rr_dispatch_m alloc quantum idx ms =
     (let slice = (if remaining (rr_procs (fst ms) ! idx) < quantum
                   then remaining (rr_procs (fst ms) ! idx) else quantum);
          start = rr_clock (fst ms)
      in case rr_slice_m alloc (nat slice) idx ms of
           Inl e \<Rightarrow> Inl e
         | Inr ms1 \<Rightarrow> rr_finish_m alloc idx start ms1)"

definition rr_iter_m ::
  "(request \<Rightarrow> bool) \<Rightarrow> int \<Rightarrow> rr_state \<times> int \<Rightarrow> failure + (rr_state \<times> int) option" where
  "rr_iter_m alloc quantum ms =
     (case ms of (s, cap) \<Rightarrow>
        (if q_empty (rr_queue s) then
           (let next_arr = rr_next_arrival (rr_procs s)
            in if next_arr = - 1 then Inr None
               else map_sum id Some (rr_idle_m alloc ms next_arr))
         else
           (let r = q_pop (rr_queue s); idx = fst r; s1 = s\<lparr>rr_queue := snd r\<rparr>
            in if remaining (rr_procs s1 ! idx) \<le> 0 then Inr (Some (s1, cap))
               else map_sum id Some (rr_dispatch_m alloc quantum idx (s1, cap)))))"

text \<open>
  The loop itself may run forever as far as its text says, so it is a partial function:
  \<open>None\<close> is a run that does not return.
\<close>

partial_function (option) rr_loop_m ::
  "(request \<Rightarrow> bool) \<Rightarrow> int \<Rightarrow> rr_state \<times> int \<Rightarrow> (failure + rr_state \<times> int) option" where
  "rr_loop_m alloc quantum ms =
     (if all_done (rr_procs (fst ms)) then Some (Inr ms)
      else case rr_iter_m alloc quantum ms of
             Inl e \<Rightarrow> Some (Inl e)
           | Inr None \<Rightarrow> Some (Inr ms)
           | Inr (Some ms') \<Rightarrow> rr_loop_m alloc quantum ms')"

declare rr_loop_m.simps [code]

text \<open>
  Lines 159-177 of rr.c: the queue of \<open>max n 4\<close> cells, the IDLE segment up to the
  earliest arrival, the first \<open>enqueue_arrivals\<close>.
\<close>

definition rr_init_m :: "(request \<Rightarrow> bool) \<Rightarrow> rr_process list \<Rightarrow> failure + rr_state \<times> int" where
  "rr_init_m alloc ps =
     (let n = int (length ps)
      in case q_init_m alloc (if n > 4 then n else 4) of
           Inl e \<Rightarrow> Inl e
         | Inr q \<Rightarrow>
             (let earliest = earliest_arrival ps
              in case (if earliest > 0 then add_segment_m alloc ([], 0) (- 1) 0 earliest
                       else Inr ([], 0)) of
                   Inl e \<Rightarrow> Inl e
                 | Inr b \<Rightarrow>
                     (let t = (if earliest > 0 then earliest else 0)
                      in case enqueue_arrivals_m alloc ps q t of
                           Inl e \<Rightarrow> Inl e
                         | Inr r \<Rightarrow>
                             Inr (\<lparr>rr_procs = fst r, rr_segs = fst b, rr_queue = snd r, rr_clock = t\<rparr>,
                                  snd b))))"

text \<open>
  The metrics (rr.c lines 223-230, sjf.c lines 151-158): two subtractions on \<open>int\<close>; the
  averages are sums of the \<open>int\<close> metrics in \<open>double\<close>, as before.
\<close>

definition set_metrics_m :: "'a process_scheme \<Rightarrow> 'a process_scheme" where
  "set_metrics_m p =
     (let p1 = p\<lparr>turnaround := wrap32 (completion p - arrival p)\<rparr>
      in p1\<lparr>waiting := wrap32 (turnaround p1 - burst p1)\<rparr>)"

definition make_report_m :: "segment list \<Rightarrow> 'a process_scheme list \<Rightarrow> 'a process_scheme report" where
  "make_report_m sgs ps =
     (let ps1 = map set_metrics_m ps;
          n = length ps
      in \<lparr>rp_segs = sgs, rp_procs = ps1,
          rp_avg_wait = fold (\<lambda>p a. a + of_int (waiting p)) ps1 0 / of_nat n,
          rp_avg_tat = fold (\<lambda>p a. a + of_int (turnaround p)) ps1 0 / of_nat n\<rparr>)"

text \<open>
  \<open>main\<close> of rr.c.  The order is that of the source: \<open>n\<close>, the quantum, \<open>calloc\<close>, the
  process lines, the simulation.
\<close>

definition rr_simulate_m ::
  "(request \<Rightarrow> bool) \<Rightarrow> int \<Rightarrow> rr_process list \<Rightarrow> (failure + rr_process report) option" where
  "rr_simulate_m alloc quantum ps =
     (case rr_init_m alloc ps of
        Inl e \<Rightarrow> Some (Inl e)
      | Inr ms \<Rightarrow>
          map_option (map_sum id (\<lambda>ms'. make_report_m (rr_segs (fst ms')) (rr_procs (fst ms'))))
            (rr_loop_m alloc quantum ms))"

definition rr_main_m :: "(request \<Rightarrow> bool) \<Rightarrow> token list \<Rightarrow> (failure + rr_process report) option" where
  "rr_main_m alloc ts =
     (case scan_int ts of
        None \<Rightarrow> Some (Inl (Rejected InvalidN))
      | Some (n, ts1) \<Rightarrow>
          if n \<le> 0 then Some (Inl (Rejected InvalidN))
          else (case scan_int ts1 of
                  None \<Rightarrow> Some (Inl (Rejected InvalidQuantum))
                | Some (quantum, ts2) \<Rightarrow>
                    if quantum \<le> 0 then Some (Inl (Rejected InvalidQuantum))
                    else if \<not> granted alloc (Processes n) then Some (Inl OutOfMemory)
                    else (case rr_read_procs (nat n) ts2 of
                            Inl e \<Rightarrow> Some (Inl (Rejected e))
                          | Inr ps \<Rightarrow> rr_simulate_m alloc quantum ps)))"

text \<open>
  sjf.c.  \<open>srtf_run_m\<close> is the running branch of the loop (lines 139-146):
  \<open>add_segment(..., t, t + 1)\<close>, \<open>remaining--\<close>, \<open>t++\<close>; \<open>srtf_idle_m\<close> the idle jump
  (lines 124-136).  The selection \<open>srtf_pick\<close> and the scan \<open>srtf_next_arrival\<close> only
  compare, and are the ones defined above.  In \<open>main\<close> the \<open>calloc\<close> comes right after
  \<open>n\<close> is read.
\<close>

definition srtf_run_m :: "(request \<Rightarrow> bool) \<Rightarrow> srtf_state \<times> int \<Rightarrow> nat \<Rightarrow> failure + srtf_state \<times> int" where
  "srtf_run_m alloc ms k =
     (case ms of (s, cap) \<Rightarrow>
        (let ps = sj_procs s; t = sj_clock s
         in (case add_segment_m alloc (sj_segs s, cap) (pid (ps ! k)) t (wrap32 (t + 1)) of
               Inl e \<Rightarrow> Inl e
             | Inr b \<Rightarrow>
                 (let ps1 = ps[k := (ps ! k)\<lparr>remaining := wrap32 (remaining (ps ! k) - 1)\<rparr>];
                      t1 = wrap32 (t + 1);
                      ps2 = (if remaining (ps1 ! k) = 0 then ps1[k := (ps1 ! k)\<lparr>completion := t1\<rparr>] else ps1)
                  in Inr (\<lparr>sj_procs = ps2, sj_segs = fst b, sj_clock = t1\<rparr>, snd b)))))"

definition srtf_idle_m :: "(request \<Rightarrow> bool) \<Rightarrow> srtf_state \<times> int \<Rightarrow> int \<Rightarrow> failure + srtf_state \<times> int" where
  "srtf_idle_m alloc ms next_arr =
     (case ms of (s, cap) \<Rightarrow>
        (case add_segment_m alloc (sj_segs s, cap) (- 1) (sj_clock s) next_arr of
           Inl e \<Rightarrow> Inl e
         | Inr b \<Rightarrow> Inr (s\<lparr>sj_segs := fst b, sj_clock := next_arr\<rparr>, snd b)))"

definition srtf_iter_m :: "(request \<Rightarrow> bool) \<Rightarrow> srtf_state \<times> int \<Rightarrow> failure + (srtf_state \<times> int) option" where
  "srtf_iter_m alloc ms =
     (case srtf_pick (sj_procs (fst ms)) (sj_clock (fst ms)) of
        None \<Rightarrow>
          (let next_arr = srtf_next_arrival (sj_procs (fst ms)) (sj_clock (fst ms))
           in if next_arr = INT_MAX then Inr None
              else map_sum id Some (srtf_idle_m alloc ms next_arr))
      | Some k \<Rightarrow> map_sum id Some (srtf_run_m alloc ms k))"

partial_function (option) srtf_loop_m ::
  "(request \<Rightarrow> bool) \<Rightarrow> srtf_state \<times> int \<Rightarrow> (failure + srtf_state \<times> int) option" where
  "srtf_loop_m alloc ms =
     (if all_done (sj_procs (fst ms)) then Some (Inr ms)
      else case srtf_iter_m alloc ms of
             Inl e \<Rightarrow> Some (Inl e)
           | Inr None \<Rightarrow> Some (Inr ms)
           | Inr (Some ms') \<Rightarrow> srtf_loop_m alloc ms')"

declare srtf_loop_m.simps [code]

definition srtf_simulate_m ::
  "(request \<Rightarrow> bool) \<Rightarrow> process list \<Rightarrow> (failure + process report) option" where
  "srtf_simulate_m alloc ps =
     map_option (map_sum id (\<lambda>ms'. make_report_m (sj_segs (fst ms')) (sj_procs (fst ms'))))
       (srtf_loop_m alloc (srtf_init ps, 0))"

definition srtf_main_m :: "(request \<Rightarrow> bool) \<Rightarrow> token list \<Rightarrow> (failure + process report) option" where
  "srtf_main_m alloc ts =
     (case scan_int ts of
        None \<Rightarrow> Some (Inl (Rejected InvalidN))
      | Some (n, ts1) \<Rightarrow>
          if n \<le> 0 then Some (Inl (Rejected InvalidN))
          else if \<not> granted alloc (Processes n) then Some (Inl OutOfMemory)
          else (case read_procs (nat n) ts1 of
                  Inl e \<Rightarrow> Some (Inl (Rejected e))
                | Inr ps \<Rightarrow> srtf_simulate_m alloc ps))"

text \<open>
  The inputs whose times fit in \<open>int\<close>: the largest arrival plus the sum of the bursts
  is at most \<open>INT_MAX\<close>.  No clock value of either program exceeds that sum (shown
  below), so on these inputs nothing wraps.  \<open>ample\<close> is an allocator that grants every
  request for a positive number of elements, on an input short enough that the capacity
  of the segment array stays within \<open>int\<close> as well.
\<close>

definition max_arrival :: "(int \<times> int \<times> int) list \<Rightarrow> int" where
  "max_arrival inp = foldr (\<lambda>l m. max (fst (snd l)) m) inp 0"

definition fits_int :: "(int \<times> int \<times> int) list \<Rightarrow> bool" where
  "fits_int inp =
     (list_all (\<lambda>l. INT_MIN \<le> fst l \<and> fst l \<le> INT_MAX) inp \<and>
      max_arrival inp + total_burst inp \<le> INT_MAX)"

definition ample :: "(request \<Rightarrow> bool) \<Rightarrow> (int \<times> int \<times> int) list \<Rightarrow> bool" where
  "ample alloc inp =
     ((\<forall>r. 0 < count_of r \<longrightarrow> alloc r) \<and> 2 * (max_arrival inp + total_burst inp) \<le> INT_MAX)"

text \<open>
  The standard input that holds the table \<open>inp\<close>: the number of lines, the quantum for
  rr.c, the lines, and anything after them (which is not read).
\<close>

definition rr_stdin :: "int \<Rightarrow> (int \<times> int \<times> int) list \<Rightarrow> token list \<Rightarrow> token list" where
  "rr_stdin quantum inp rest = Num (int (length inp)) # Num quantum # tokens_of inp @ rest"

definition srtf_stdin :: "(int \<times> int \<times> int) list \<Rightarrow> token list \<Rightarrow> token list" where
  "srtf_stdin inp rest = Num (int (length inp)) # tokens_of inp @ rest"

section \<open>Agreement of the two models within the range of int\<close>

text \<open>
  On a valid input whose times fit in \<open>int\<close> the machine-level run either stops on a
  refused allocation or returns exactly what the integer-level run returns.  The
  parameter \<open>g\<close> of the lemmas below says whether the allocator is known to be ample:
  with \<open>g\<close> true the run cannot stop on an allocation.  The invariant \<open>rr_fit\<close> bounds
  the clock by the largest arrival plus the work done so far; the ready queue never
  holds an index twice, so it is never full and never grows.
\<close>

lemma wrap32_id: "INT_MIN \<le> x \<Longrightarrow> x \<le> INT_MAX \<Longrightarrow> wrap32 x = x"
  by (simp add: wrap32_def INT_MIN_def INT_MAX_def)

definition refines :: "bool \<Rightarrow> failure + 'a \<times> int \<Rightarrow> 'a \<Rightarrow> bool" where
  "refines g res a =
     (case res of Inl e \<Rightarrow> e = OutOfMemory \<and> \<not> g | Inr x \<Rightarrow> fst x = a \<and> 0 \<le> snd x)"

lemma refines_Inr [simp]: "refines g (Inr (x, c)) a \<longleftrightarrow> x = a \<and> 0 \<le> c"
  by (simp add: refines_def)

lemma refines_Inl [simp]: "refines g (Inl e) a \<longleftrightarrow> e = OutOfMemory \<and> \<not> g"
  by (simp add: refines_def)

lemma refines_cases:
  assumes "refines g res a"
  obtains "res = Inl OutOfMemory" "\<not> g" | c where "res = Inr (a, c)" "0 \<le> c"
  using assms by (cases res) (auto simp: refines_def)

lemma add_segment_m_refines:
  assumes "0 \<le> cap"
    and "g \<longrightarrow> (\<forall>r. 0 < count_of r \<longrightarrow> alloc r) \<and> 2 * int (length sgs) \<le> INT_MAX"
  shows "refines g (add_segment_m alloc (sgs, cap) p st en) (add_segment sgs p st en)"
proof -
  have full: "granted alloc (Segments (if cap = 0 then 16 else wrap32 (cap * 2)))"
    if "g" "cap \<le> int (length sgs)"
  proof (cases "cap = 0")
    case True
    with assms(2) that(1) show ?thesis by (simp add: granted_def)
  next
    case False
    with assms(1) that assms(2)
    have "0 < cap * 2" "cap * 2 \<le> INT_MAX" by auto
    then have "wrap32 (cap * 2) = cap * 2" by (intro wrap32_id) (auto simp: INT_MIN_def)
    with False \<open>0 < cap * 2\<close> assms(2) that(1) show ?thesis by (simp add: granted_def)
  qed
  have pos: "granted alloc (Segments c) \<Longrightarrow> 0 \<le> c" for c
    by (simp add: granted_def)
  show ?thesis
    using assms(1) full pos
    by (auto simp: add_segment_m_def add_segment_def Let_def)
qed

lemma q_push_m_free:
  assumes "q_size q < q_cap q"
  shows "q_push_m alloc q v = Inr (q_push q v)" and "q_cap (q_push q v) = q_cap q"
  using assms by (simp_all add: q_push_m_def q_push_def Let_def)

lemma distinct_length_less:
  assumes "distinct xs" "set xs \<subseteq> {..<n}" "k < n" "k \<notin> set xs"
  shows "length xs < n"
proof -
  from assms(2,4) have "set xs \<subseteq> {..<n} - {k}" by auto
  then have "card (set xs) \<le> card ({..<n} - {k})" by (intro card_mono) auto
  also have "\<dots> = n - 1" using assms(3) by simp
  finally show ?thesis using assms(1,3) by (simp add: distinct_card)
qed

lemma enqueue_prefix_m:
  assumes "k \<le> length ps" and q: "q_inv q" "distinct (q_list q)" "set (q_list q) \<subseteq> {..<length ps}"
    and enq: "\<And>i. i \<in> set (q_list q) \<Longrightarrow> enqueued (ps ! i)"
    and cap: "length ps \<le> q_cap q"
  shows "fold (enqueue_step_m alloc t) [0..<k] (Inr (ps, q)) = Inr (fold (enqueue_step t) [0..<k] (ps, q)) \<and>
         q_cap (snd (fold (enqueue_step t) [0..<k] (ps, q))) = q_cap q"
  using assms(1)
proof (induction k)
  case 0
  then show ?case by simp
next
  case (Suc k)
  obtain psk qk where f: "fold (enqueue_step t) [0..<k] (ps, q) = (psk, qk)"
    by (cases "fold (enqueue_step t) [0..<k] (ps, q)")
  from Suc.prems have k: "k < length ps" "k \<le> length ps" by simp_all
  from enqueue_prefix[OF k(2) q(1), where t = t] f
  have psk: "psk = map (arrive t) (take k ps) @ drop k ps"
    and qk: "q_inv qk" "q_list qk = q_list q @ filter (newly ps t) [0..<k]"
    by auto
  from Suc.IH[OF k(2)] f
  have ih: "fold (enqueue_step_m alloc t) [0..<k] (Inr (ps, q)) = Inr (psk, qk)" "q_cap qk = q_cap q"
    by auto
  have nth: "psk ! k = ps ! k"
    using k by (simp add: psk nth_append)
  have stepm: "fold (enqueue_step_m alloc t) [0..<Suc k] (Inr (ps, q)) = enqueue_step_m alloc t k (Inr (psk, qk))"
    by (simp add: ih)
  have step: "fold (enqueue_step t) [0..<Suc k] (ps, q) = enqueue_step t k (psk, qk)"
    by (simp add: f)
  show ?case
  proof (cases "newly ps t k")
    case True
    have d: "distinct (q_list qk)"
      unfolding qk(2) using q(2) enq by (auto simp: newly_def)
    have sub: "set (q_list qk) \<subseteq> {..<length ps}"
      unfolding qk(2) using q(3) k by auto
    have notin: "k \<notin> set (q_list qk)"
      unfolding qk(2) using True enq by (auto simp: newly_def)
    from distinct_length_less[OF d sub k(1) notin] cap ih(2)
    have "q_size qk < q_cap qk" by (simp add: q_list_def)
    from q_push_m_free[OF this, where v = k] ih(2) True
    show ?thesis
      unfolding stepm step
      by (simp add: enqueue_step_m_def enqueue_step_def newly_def nth)
  next
    case False
    then show ?thesis
      unfolding stepm step using ih(2)
      by (auto simp: enqueue_step_m_def enqueue_step_def newly_def nth)
  qed
qed

lemma enqueue_arrivals_m_eq:
  assumes "q_inv q" "distinct (q_list q)" "set (q_list q) \<subseteq> {..<length ps}"
    and "\<And>i. i \<in> set (q_list q) \<Longrightarrow> enqueued (ps ! i)"
    and "length ps \<le> q_cap q"
  shows "enqueue_arrivals_m alloc ps q t = Inr (enqueue_arrivals ps q t)"
    and "q_cap (snd (enqueue_arrivals ps q t)) = q_cap q"
  using enqueue_prefix_m[OF le_refl assms, of alloc t]
  by (simp_all add: enqueue_arrivals_m_def enqueue_arrivals_def)

lemma max_arrival_simps [simp]:
  "max_arrival [] = 0" "max_arrival (l # inp) = max (fst (snd l)) (max_arrival inp)"
  by (simp_all add: max_arrival_def)

lemma max_arrival_ge: "l \<in> set inp \<Longrightarrow> fst (snd l) \<le> max_arrival inp"
  by (induction inp) auto

lemma max_arrival_nonneg: "0 \<le> max_arrival inp"
  by (induction inp) auto

lemma sum_list_nth_le:
  fixes xs :: "int list"
  assumes "\<forall>x\<in>set xs. 0 \<le> x" "i < length xs"
  shows "xs ! i \<le> sum_list xs"
proof -
  from sum_list_int_update[OF assms(2), of "\<lambda>x. x" 0]
  have "sum_list xs = sum_list (xs[i := 0]) + xs ! i" by simp
  moreover have "0 \<le> sum_list (xs[i := 0])"
    by (rule sum_list_nonneg) (use assms(1) in \<open>auto dest!: set_update_subset_insert[THEN subsetD]\<close>)
  ultimately show ?thesis by simp
qed

lemma work_bound:
  assumes len: "length ps = length inp"
    and ok0: "\<forall>i<length inp.
               burst (ps ! i) = snd (snd (inp ! i)) \<and> 0 \<le> remaining (ps ! i) \<and> remaining (ps ! i) \<le> burst (ps ! i)"
  shows "0 \<le> done_work ps" and "done_work ps \<le> total_burst inp"
    and "idx < length inp \<Longrightarrow> done_work ps + remaining (ps ! idx) \<le> total_burst inp"
proof -
  from ok0 have ok: "\<And>i. i < length inp \<Longrightarrow>
      burst (ps ! i) = snd (snd (inp ! i)) \<and> 0 \<le> remaining (ps ! i) \<and> remaining (ps ! i) \<le> burst (ps ! i)"
    by blast
  have b: "map burst ps = map (\<lambda>l. snd (snd l)) inp"
  proof (rule nth_equalityI)
    show "length (map burst ps) = length (map (\<lambda>l. snd (snd l)) inp)" using len by simp
    fix i assume "i < length (map burst ps)"
    with ok[of i] len show "map burst ps ! i = map (\<lambda>l. snd (snd l)) inp ! i" by simp
  qed
  have dw: "done_work ps = sum_list (map burst ps) - sum_list (map remaining ps)"
    by (simp add: done_work_def sum_list_subtractf)
  have tb: "total_burst inp = sum_list (map burst ps)"
    by (simp add: total_burst_def b)
  have nn: "\<forall>x\<in>set (map remaining ps). 0 \<le> x"
  proof
    fix x assume "x \<in> set (map remaining ps)"
    then obtain i where "i < length ps" "remaining (ps ! i) = x" by (auto simp: in_set_conv_nth)
    with ok[of i] len show "0 \<le> x" by simp
  qed
  have "0 \<le> burst p - remaining p" if "p \<in> set ps" for p
  proof -
    from that obtain i where "i < length ps" "ps ! i = p" by (auto simp: in_set_conv_nth)
    with ok[of i] len show ?thesis by simp
  qed
  then show "0 \<le> done_work ps"
    unfolding done_work_def by (intro sum_list_nonneg) auto
  from sum_list_nonneg[of "map remaining ps"] nn
  show "done_work ps \<le> total_burst inp" by (simp add: dw tb)
  assume "idx < length inp"
  with sum_list_nth_le[OF nn, of idx] len
  show "done_work ps + remaining (ps ! idx) \<le> total_burst inp" by (simp add: dw tb)
qed

definition rr_fit :: "(int \<times> int \<times> int) list \<Rightarrow> rr_state \<Rightarrow> bool" where
  "rr_fit inp s =
     (rr_clock s \<le> max_arrival inp + done_work (rr_procs s) \<and> length inp \<le> q_cap (rr_queue s))"

lemma chain_length: "chain_from a sgs \<Longrightarrow> a + int (length sgs) \<le> end_of a sgs"
proof (induction sgs arbitrary: a)
  case Nil
  then show ?case by simp
next
  case (Cons s sgs)
  from Cons.IH[of "s_end s"] Cons.prems show ?case by simp
qed

lemma rr_inv_facts:
  assumes "rr_inv inp run start s"
  shows "length (rr_procs s) = length inp"
    and "q_inv (rr_queue s)" and "distinct (q_list (rr_queue s))"
    and "set (q_list (rr_queue s)) \<subseteq> {..<length inp}"
    and "\<forall>i<length inp.
           burst (rr_procs s ! i) = snd (snd (inp ! i)) \<and> 0 \<le> remaining (rr_procs s ! i) \<and>
           remaining (rr_procs s ! i) \<le> burst (rr_procs s ! i)"
    and "\<And>i. i < length inp \<Longrightarrow>
           arrival (rr_procs s ! i) = fst (snd (inp ! i)) \<and> pid (rr_procs s ! i) = fst (inp ! i)"
    and "\<And>i. i \<in> set (q_list (rr_queue s)) \<Longrightarrow> enqueued (rr_procs s ! i) \<and> run \<noteq> Some i"
    and "0 \<le> start" and "start \<le> rr_clock s" and "int (length (rr_segs s)) \<le> start"
proof -
  from assms have core: "rr_core inp run (rr_clock s) (rr_procs s) (rr_queue s)"
    and tl: "chain_from 0 (rr_segs s)" "end_of 0 (rr_segs s) = start"
    by (auto simp: rr_inv_def timeline_ok_def)
  from core show "length (rr_procs s) = length inp"
    and "q_inv (rr_queue s)" and "distinct (q_list (rr_queue s))"
    and sub: "set (q_list (rr_queue s)) \<subseteq> {..<length inp}"
    by (auto simp: rr_core_def)
  from core have slot: "\<And>i. i < length inp \<Longrightarrow>
      slot_ok (inp ! i) (run = Some i) (rr_clock s) (i \<in> set (q_list (rr_queue s))) (rr_procs s ! i)"
    by (auto simp: rr_core_def)
  have "burst (rr_procs s ! i) = snd (snd (inp ! i)) \<and> 0 \<le> remaining (rr_procs s ! i) \<and>
           remaining (rr_procs s ! i) \<le> burst (rr_procs s ! i)" if "i < length inp" for i
    using slot[OF that]
    by (cases "inp ! i") (auto simp: slot_ok_def proc_ok_def proc_live_def split: if_splits)
  then show "\<forall>i<length inp.
           burst (rr_procs s ! i) = snd (snd (inp ! i)) \<and> 0 \<le> remaining (rr_procs s ! i) \<and>
           remaining (rr_procs s ! i) \<le> burst (rr_procs s ! i)" by blast
  show "arrival (rr_procs s ! i) = fst (snd (inp ! i)) \<and> pid (rr_procs s ! i) = fst (inp ! i)"
    if "i < length inp" for i
    using slot[OF that]
    by (cases "inp ! i") (auto simp: slot_ok_def proc_ok_def proc_live_def split: if_splits)
  show "enqueued (rr_procs s ! i) \<and> run \<noteq> Some i" if "i \<in> set (q_list (rr_queue s))" for i
  proof -
    from that sub have "i < length inp" by auto
    from slot[OF this] that show ?thesis by (auto simp: slot_ok_def)
  qed
  from chain_from_le[OF tl(1)] tl(2) show "0 \<le> start" by simp
  from assms show "start \<le> rr_clock s" by (cases run) (auto simp: rr_inv_def)
  from chain_length[OF tl(1)] tl(2) show "int (length (rr_segs s)) \<le> start" by simp
qed

lemma rr_tick_m_eq:
  assumes inv: "rr_inv inp (Some idx) start s" and pos: "0 < remaining (rr_procs s ! idx)"
    and fit: "rr_fit inp s" and rng: "max_arrival inp + total_burst inp \<le> INT_MAX"
  shows "rr_tick_m alloc idx (s, cap) = Inr (rr_tick idx s, cap)"
    and "rr_fit inp (rr_tick idx s)"
proof -
  let ?ps = "rr_procs s" and ?t = "rr_clock s" and ?q = "rr_queue s"
  let ?d = "(?ps ! idx)\<lparr>remaining := remaining (?ps ! idx) - 1\<rparr>"
  let ?ps1 = "?ps[idx := ?d]"
  note f = rr_inv_facts[OF inv]
  from inv have idx: "idx < length inp" by (simp add: rr_inv_def)
  note wb = work_bound[OF f(1) f(5)]
  from fit have clk: "?t \<le> max_arrival inp + done_work ?ps" and qc: "length inp \<le> q_cap ?q"
    by (simp_all add: rr_fit_def)
  from clk wb(3)[OF idx] pos rng have t1: "?t + 1 \<le> INT_MAX" by linarith
  from f(8,9) have t0: "0 \<le> ?t" by simp
  from t0 t1 have w1: "wrap32 (?t + 1) = ?t + 1"
    by (intro wrap32_id) (auto simp: INT_MIN_def)
  from wb(1) wb(3)[OF idx] rng max_arrival_nonneg[of inp] have "remaining (?ps ! idx) \<le> INT_MAX" by linarith
  with pos have w2: "wrap32 (remaining (?ps ! idx) - 1) = remaining (?ps ! idx) - 1"
    by (intro wrap32_id) (auto simp: INT_MIN_def)
  have enq: "enqueued (?ps1 ! i)" if "i \<in> set (q_list ?q)" for i
  proof -
    from f(7)[OF that] have "i \<noteq> idx" "enqueued (?ps ! i)" by auto
    then show ?thesis by simp
  qed
  have e: "enqueue_arrivals_m alloc ?ps1 ?q (?t + 1) = Inr (enqueue_arrivals ?ps1 ?q (?t + 1))"
    and c: "q_cap (snd (enqueue_arrivals ?ps1 ?q (?t + 1))) = q_cap ?q"
    by (rule enqueue_arrivals_m_eq; use f(1-4) enq qc in simp)+
  show "rr_tick_m alloc idx (s, cap) = Inr (rr_tick idx s, cap)"
    by (simp add: rr_tick_m_def rr_tick_def Let_def w1 w2 e)
  note tf = rr_tick_fields[OF f(2), of idx]
  have dw: "done_work (rr_procs (rr_tick idx s)) = done_work ?ps + 1"
    using idx f(1) by (simp add: tf done_work_arrive done_work_update)
  show "rr_fit inp (rr_tick idx s)"
    using clk qc c dw by (simp add: rr_fit_def tf(1,4))
qed

lemma rr_slice_m_eq:
  assumes "rr_inv inp (Some idx) start s" "int m \<le> remaining (rr_procs s ! idx)"
    and "rr_fit inp s" and rng: "max_arrival inp + total_burst inp \<le> INT_MAX"
  shows "rr_slice_m alloc m idx (s, cap) = Inr (rr_slice m idx s, cap) \<and> rr_fit inp (rr_slice m idx s)"
  using assms(1-3)
proof (induction m arbitrary: s)
  case 0
  then show ?case by simp
next
  case (Suc m)
  from Suc.prems have pos: "0 < remaining (rr_procs s ! idx)" by simp
  note t = rr_tick_inv[OF Suc.prems(1) pos]
  note tm = rr_tick_m_eq(1)[OF Suc.prems(1) pos Suc.prems(3) rng, of alloc cap]
    rr_tick_m_eq(2)[OF Suc.prems(1) pos Suc.prems(3) rng]
  show ?case
  proof (cases "remaining (rr_procs (rr_tick idx s) ! idx) = 0")
    case True
    with tm show ?thesis by (simp add: Let_def)
  next
    case False
    from t(3) Suc.prems(2) have "int m \<le> remaining (rr_procs (rr_tick idx s) ! idx)" by simp
    from Suc.IH[OF t(1) this tm(2)] False tm(1) show ?thesis by (simp add: Let_def)
  qed
qed

lemma rr_finish_m_refines:
  assumes inv: "rr_inv inp (Some idx) start s" and lt: "start < rr_clock s"
    and fit: "rr_fit inp s" and rng: "max_arrival inp + total_burst inp \<le> INT_MAX"
    and cap: "0 \<le> cap" and g: "g \<longrightarrow> ample alloc inp"
  shows "refines g (rr_finish_m alloc idx start (s, cap)) (rr_finish idx start s)"
    and "rr_fit inp (rr_finish idx start s)"
proof -
  let ?ps = "rr_procs s" and ?t = "rr_clock s" and ?q = "rr_queue s"
  let ?sg = "add_segment (rr_segs s) (pid (?ps ! idx)) start ?t"
  note f = rr_inv_facts[OF inv]
  from inv have idx: "idx < length inp" by (simp add: rr_inv_def)
  note wb = work_bound[OF f(1) f(5)]
  from fit have clk: "?t \<le> max_arrival inp + done_work ?ps" and qc: "length inp \<le> q_cap ?q"
    by (simp_all add: rr_fit_def)
  from inv have nq: "idx \<notin> set (q_list ?q)"
    by (auto simp: rr_inv_def rr_core_def slot_ok_def)
  from distinct_length_less[OF f(3,4) idx nq] qc f(2) have free: "q_size ?q < q_cap ?q"
    by (simp add: q_list_def)
  have "g \<longrightarrow> (\<forall>r. 0 < count_of r \<longrightarrow> alloc r) \<and> 2 * int (length (rr_segs s)) \<le> INT_MAX"
    using g f(10) lt clk wb(2) by (auto simp: ample_def)
  from add_segment_m_refines[OF cap this, of "pid (?ps ! idx)" start ?t]
  have r: "refines g (add_segment_m alloc (rr_segs s, cap) (pid (?ps ! idx)) start ?t) ?sg"
    by simp
  show "refines g (rr_finish_m alloc idx start (s, cap)) (rr_finish idx start s)"
  proof (cases rule: refines_cases[OF r])
    case 1
    then show ?thesis by (simp add: rr_finish_m_def)
  next
    case (2 c)
    with q_push_m_free(1)[OF free, of alloc idx] show ?thesis
      by (simp add: rr_finish_m_def rr_finish_def Let_def)
  qed
  have dw: "done_work (rr_procs (rr_finish idx start s)) = done_work ?ps"
    by (simp add: rr_finish_def Let_def done_work_same)
  have qcap: "q_cap (rr_queue (rr_finish idx start s)) = q_cap ?q"
    using q_push_m_free(2)[OF free, of idx] by (simp add: rr_finish_def Let_def)
  show "rr_fit inp (rr_finish idx start s)"
    using clk qc by (simp add: rr_fit_def dw qcap rr_finish_inv(2)[OF inv lt])
qed

lemma rr_dispatch_m_refines:
  assumes inv: "rr_inv inp (Some idx) (rr_clock s) s" and pos: "0 < remaining (rr_procs s ! idx)"
    and qn: "0 < quantum"
    and fit: "rr_fit inp s" and rng: "max_arrival inp + total_burst inp \<le> INT_MAX"
    and cap: "0 \<le> cap" and g: "g \<longrightarrow> ample alloc inp"
  shows "refines g (rr_dispatch_m alloc quantum idx (s, cap)) (rr_dispatch quantum idx s)"
    and "rr_fit inp (rr_dispatch quantum idx s)"
proof -
  let ?r = "remaining (rr_procs s ! idx)"
  let ?m = "nat (if ?r < quantum then ?r else quantum)"
  have m: "int ?m \<le> ?r" "0 < ?m" using pos qn by auto
  from rr_slice_inv[OF inv m(1)]
  have sl: "rr_inv inp (Some idx) (rr_clock s) (rr_slice ?m idx s)"
    "rr_clock (rr_slice ?m idx s) = rr_clock s + int ?m"
    by auto
  from rr_slice_m_eq[OF inv m(1) fit rng, of alloc cap]
  have sm: "rr_slice_m alloc ?m idx (s, cap) = Inr (rr_slice ?m idx s, cap)"
    "rr_fit inp (rr_slice ?m idx s)" by auto
  from sl(2) m(2) have lt: "rr_clock s < rr_clock (rr_slice ?m idx s)" by simp
  note fin = rr_finish_m_refines[OF sl(1) lt sm(2) rng cap g]
  have d: "rr_dispatch quantum idx s = rr_finish idx (rr_clock s) (rr_slice ?m idx s)"
    by (simp add: rr_dispatch_def Let_def)
  show "refines g (rr_dispatch_m alloc quantum idx (s, cap)) (rr_dispatch quantum idx s)"
    unfolding d rr_dispatch_m_def Let_def fst_conv sm(1) sum.case by (rule fin(1))
  show "rr_fit inp (rr_dispatch quantum idx s)"
    unfolding d by (rule fin(2))
qed

lemma rr_idle_m_refines:
  assumes inv: "rr_inv inp None t0 s" and emp: "q_list (rr_queue s) = []"
    and a: "rr_next_arrival (rr_procs s) = a" "a \<noteq> - 1"
    and fit: "rr_fit inp s" and rng: "max_arrival inp + total_burst inp \<le> INT_MAX"
    and cap: "0 \<le> cap" and g: "g \<longrightarrow> ample alloc inp"
  shows "refines g (rr_idle_m alloc (s, cap) a) (rr_idle s a)"
    and "rr_fit inp (rr_idle s a)"
proof -
  let ?ps = "rr_procs s" and ?t = "rr_clock s" and ?q = "rr_queue s"
  note f = rr_inv_facts[OF inv]
  note wb = work_bound[OF f(1) f(5)]
  from fit have clk: "?t \<le> max_arrival inp + done_work ?ps" and qc: "length inp \<le> q_cap ?q"
    by (simp_all add: rr_fit_def)
  from inv have t0: "t0 = ?t" by (simp add: rr_inv_def)
  from inv have slot: "\<And>i. i < length inp \<Longrightarrow>
      slot_ok (inp ! i) False ?t (i \<in> set (q_list ?q)) (?ps ! i)"
    by (auto simp: rr_inv_def rr_core_def)
  from rr_next_fold[OF a(1)[unfolded rr_next_arrival_def]] a(2)
  obtain p where p: "p \<in> set ?ps" "0 < remaining p" "\<not> enqueued p" "arrival p = a"
    by auto
  then obtain j where j: "j < length inp" "?ps ! j = p"
    using f(1) by (auto simp: in_set_conv_nth)
  from slot[OF j(1)] j(2) p(3,4) have lt: "?t < a" by (auto simp: slot_ok_def)
  from f(6)[OF j(1)] j(2) p(4) have "a = fst (snd (inp ! j))" by simp
  with max_arrival_ge[of "inp ! j" inp] j(1) have am: "a \<le> max_arrival inp" by simp
  have e: "enqueue_arrivals_m alloc ?ps ?q a = Inr (enqueue_arrivals ?ps ?q a)"
    and c: "q_cap (snd (enqueue_arrivals ?ps ?q a)) = q_cap ?q"
    by (rule enqueue_arrivals_m_eq; use f(1-4) emp qc in simp)+
  have "g \<longrightarrow> (\<forall>r. 0 < count_of r \<longrightarrow> alloc r) \<and> 2 * int (length (rr_segs s)) \<le> INT_MAX"
    using g f(10) t0 clk wb(2) by (auto simp: ample_def)
  from add_segment_m_refines[OF cap this, of "- 1" ?t a]
  have r: "refines g (add_segment_m alloc (rr_segs s, cap) (- 1) ?t a)
             (add_segment (rr_segs s) (- 1) ?t a)"
    by simp
  show "refines g (rr_idle_m alloc (s, cap) a) (rr_idle s a)"
  proof (cases rule: refines_cases[OF r])
    case 1
    with lt show ?thesis by (simp add: rr_idle_m_def)
  next
    case (2 c)
    with lt e show ?thesis
      by (simp add: rr_idle_m_def rr_idle_def Let_def)
  qed
  have pr: "rr_procs (rr_idle s a) = map (arrive a) ?ps"
    and qu: "rr_queue (rr_idle s a) = snd (enqueue_arrivals ?ps ?q a)"
    and ck: "rr_clock (rr_idle s a) = a"
    using enqueue_arrivals_eq(1)[OF f(2), of ?ps a] by (simp_all add: rr_idle_def Let_def)
  show "rr_fit inp (rr_idle s a)"
    using am wb(1) qc c by (simp add: rr_fit_def pr qu ck done_work_arrive)
qed

lemma q_pop_cap: "q_cap (snd (q_pop q)) = q_cap q"
  by (simp add: q_pop_def)

lemma rr_iter_m_refines:
  assumes inv: "rr_inv inp None t0 s" and nd: "\<not> all_done (rr_procs s)" and qn: "0 < quantum"
    and fit: "rr_fit inp s" and rng: "max_arrival inp + total_burst inp \<le> INT_MAX"
    and cap: "0 \<le> cap" and g: "g \<longrightarrow> ample alloc inp"
  shows "\<exists>s'. rr_iter quantum s = Some s' \<and> rr_fit inp s' \<and>
           ((rr_iter_m alloc quantum (s, cap) = Inl OutOfMemory \<and> \<not> g) \<or>
            (\<exists>c. rr_iter_m alloc quantum (s, cap) = Inr (Some (s', c)) \<and> 0 \<le> c))"
proof (cases "q_list (rr_queue s) = []")
  case True
  let ?a = "rr_next_arrival (rr_procs s)"
  from rr_idle_found[OF inv True nd] have ne: "?a \<noteq> - 1" .
  note i = rr_idle_m_refines[OF inv True refl ne fit rng cap g]
  have it: "rr_iter quantum s = Some (rr_idle s ?a)"
    using True ne by (simp add: rr_iter_def q_empty_iff Let_def)
  have im: "rr_iter_m alloc quantum (s, cap) = map_sum id Some (rr_idle_m alloc (s, cap) ?a)"
    using True ne by (simp add: rr_iter_m_def q_empty_iff Let_def)
  from i(1) have "(rr_iter_m alloc quantum (s, cap) = Inl OutOfMemory \<and> \<not> g) \<or>
            (\<exists>c. rr_iter_m alloc quantum (s, cap) = Inr (Some (rr_idle s ?a, c)) \<and> 0 \<le> c)"
    unfolding im by (cases rule: refines_cases) simp_all
  with it i(2) show ?thesis by simp
next
  case False
  let ?idx = "fst (q_pop (rr_queue s))" and ?s1 = "s\<lparr>rr_queue := snd (q_pop (rr_queue s))\<rparr>"
  note p = rr_pop_inv[OF inv False]
  have inv1: "rr_inv inp (Some ?idx) (rr_clock ?s1) ?s1" using p(1) by simp
  have pos1: "0 < remaining (rr_procs ?s1 ! ?idx)" using p(2) by simp
  have fit1: "rr_fit inp ?s1" using fit by (simp add: rr_fit_def q_pop_cap)
  note d = rr_dispatch_m_refines[OF inv1 pos1 qn fit1 rng cap g]
  have it: "rr_iter quantum s = Some (rr_dispatch quantum ?idx ?s1)"
    using False p(2) by (simp add: rr_iter_def q_empty_iff Let_def)
  have im: "rr_iter_m alloc quantum (s, cap) = map_sum id Some (rr_dispatch_m alloc quantum ?idx (?s1, cap))"
    using False p(2) by (simp add: rr_iter_m_def q_empty_iff Let_def)
  from d(1) have "(rr_iter_m alloc quantum (s, cap) = Inl OutOfMemory \<and> \<not> g) \<or>
            (\<exists>c. rr_iter_m alloc quantum (s, cap) = Inr (Some (rr_dispatch quantum ?idx ?s1, c)) \<and> 0 \<le> c)"
    unfolding im by (cases rule: refines_cases) simp_all
  with it d(2) show ?thesis by simp
qed

lemma rr_loop_m_refines:
  assumes qn: "0 < quantum" and rng: "max_arrival inp + total_burst inp \<le> INT_MAX"
    and g: "g \<longrightarrow> ample alloc inp"
    and "rr_inv inp None (rr_clock s) s" "rr_fit inp s" "0 \<le> cap"
  shows "\<exists>s'. rr_loop quantum s = Some s' \<and> rr_fit inp s' \<and>
           ((rr_loop_m alloc quantum (s, cap) = Some (Inl OutOfMemory) \<and> \<not> g) \<or>
            (\<exists>c. rr_loop_m alloc quantum (s, cap) = Some (Inr (s', c))))"
  using assms(4-6)
proof (induction s arbitrary: cap rule: wf_induct_rule[OF wf_measures[of "[rr_work, rr_unqueued]"]])
  case (1 s)
  show ?case
  proof (cases "all_done (rr_procs s)")
    case True
    have "rr_loop quantum s = Some s" using True by (subst rr_loop.simps) simp
    moreover have "rr_loop_m alloc quantum (s, cap) = Some (Inr (s, cap))"
      using True by (subst rr_loop_m.simps) simp
    ultimately show ?thesis using "1.prems"(2) by simp
  next
    case False
    from rr_iter_inv[OF "1.prems"(1) False qn]
    obtain s1 where s1: "rr_iter quantum s = Some s1" "rr_inv inp None (rr_clock s1) s1"
      "(s1, s) \<in> measures [rr_work, rr_unqueued]" by blast
    from rr_iter_m_refines[OF "1.prems"(1) False qn "1.prems"(2) rng "1.prems"(3) g] s1(1)
    have fit1: "rr_fit inp s1"
      and m: "(rr_iter_m alloc quantum (s, cap) = Inl OutOfMemory \<and> \<not> g) \<or>
            (\<exists>c. rr_iter_m alloc quantum (s, cap) = Inr (Some (s1, c)) \<and> 0 \<le> c)"
      by auto
    have lp: "rr_loop quantum s = rr_loop quantum s1"
      using False s1(1) by (subst rr_loop.simps) simp
    from m show ?thesis
    proof
      assume oom: "rr_iter_m alloc quantum (s, cap) = Inl OutOfMemory \<and> \<not> g"
      then have "rr_loop_m alloc quantum (s, cap) = Some (Inl OutOfMemory)"
        using False by (subst rr_loop_m.simps) simp
      moreover from "1.IH"[OF s1(3) s1(2) fit1, of 0]
      obtain s' where "rr_loop quantum s1 = Some s'" "rr_fit inp s'" by auto
      ultimately show ?thesis using oom lp by simp
    next
      assume "\<exists>c. rr_iter_m alloc quantum (s, cap) = Inr (Some (s1, c)) \<and> 0 \<le> c"
      then obtain c where c: "rr_iter_m alloc quantum (s, cap) = Inr (Some (s1, c))" "0 \<le> c" by auto
      then have "rr_loop_m alloc quantum (s, cap) = rr_loop_m alloc quantum (s1, c)"
        using False by (subst rr_loop_m.simps) simp
      with "1.IH"[OF s1(3) s1(2) fit1 c(2)] lp show ?thesis by simp
    qed
  qed
qed

lemma earliest_fold_le:
  "fold (\<lambda>p earliest. if arrival p < earliest then arrival p else earliest) ps a \<le> (a :: int)"
proof (induction ps arbitrary: a)
  case Nil
  then show ?case by simp
next
  case (Cons p ps)
  from Cons.IH[of "if arrival p < a then arrival p else a"] show ?case by (auto split: if_splits)
qed

lemma rr_init_m_refines:
  assumes v: "valid_input inp" and g: "g \<longrightarrow> ample alloc inp"
  shows "refines g (rr_init_m alloc (map rr_new_process inp)) (rr_init (map rr_new_process inp))"
    and "rr_fit inp (rr_init (map rr_new_process inp))"
proof -
  let ?ps = "map rr_new_process inp"
  let ?e = "earliest_arrival ?ps"
  define t where "t = (if 0 < ?e then ?e else 0)"
  define n where "n = (if 4 < length inp then length inp else 4)"
  define q where "q = q_init n"
  have npos: "0 < n" by (auto simp: n_def)
  from q_init_inv[OF npos] have q: "q_inv q" "q_list q = []" unfolding q_def by blast+
  have qcap: "length ?ps \<le> q_cap q" by (auto simp: q_def q_init_def n_def)
  have e: "enqueue_arrivals_m alloc ?ps q t = Inr (enqueue_arrivals ?ps q t)"
    and c: "q_cap (snd (enqueue_arrivals ?ps q t)) = q_cap q"
    by (rule enqueue_arrivals_m_eq; use q qcap in simp)+
  have qi: "4 < length inp \<Longrightarrow> q_init_m alloc (int (length inp))
              = (if granted alloc (QueueCells (int n)) then Inr q else Inl OutOfMemory)"
    "\<not> 4 < length inp \<Longrightarrow> q_init_m alloc 4
              = (if granted alloc (QueueCells (int n)) then Inr q else Inl OutOfMemory)"
    by (auto simp: q_init_m_def q_def n_def)
  have gq: "g \<longrightarrow> granted alloc (QueueCells (int n))"
    using g npos by (simp add: ample_def granted_def)
  have "g \<longrightarrow> (\<forall>r. 0 < count_of r \<longrightarrow> alloc r) \<and> 2 * int (length ([] :: segment list)) \<le> INT_MAX"
    using g by (simp add: ample_def INT_MAX_def)
  from add_segment_m_refines[OF order_refl this, of "- 1" 0 ?e]
  have r: "refines g (add_segment_m alloc ([], 0) (- 1) 0 ?e) (add_segment [] (- 1) 0 ?e)"
    by simp
  have i0: "rr_init ?ps = \<lparr>rr_procs = fst (enqueue_arrivals ?ps q t),
                rr_segs = (if 0 < ?e then add_segment [] (- 1) 0 ?e else []),
                rr_queue = snd (enqueue_arrivals ?ps q t), rr_clock = t\<rparr>"
    by (simp add: rr_init_def Let_def t_def q_def n_def)
  show "refines g (rr_init_m alloc ?ps) (rr_init ?ps)"
  proof (cases "granted alloc (QueueCells (int n))")
    case False
    with gq show ?thesis by (auto simp: rr_init_m_def Let_def qi)
  next
    case True
    show ?thesis
    proof (cases "0 < ?e")
      case e0: False
      with True e show ?thesis
        unfolding i0 by (simp add: rr_init_m_def Let_def qi t_def)
    next
      case e1: True
      from r show ?thesis
      proof (cases rule: refines_cases)
        case 1
        with True e1 show ?thesis by (simp add: rr_init_m_def Let_def qi)
      next
        case (2 c)
        with True e1 e show ?thesis
          unfolding i0 by (simp add: rr_init_m_def Let_def qi t_def)
      qed
    qed
  qed
  from v have ne: "inp \<noteq> []" by (simp add: valid_input_def)
  have "?e \<le> arrival (?ps ! 0)"
    unfolding earliest_arrival_def by (rule earliest_fold_le)
  also have "arrival (?ps ! 0) = fst (snd (inp ! 0))"
    using ne by (cases "inp ! 0") (simp add: rr_new_process_def)
  also have "\<dots> \<le> max_arrival inp"
    using ne by (intro max_arrival_ge) simp
  finally have "t \<le> max_arrival inp"
    using max_arrival_nonneg[of inp] by (simp add: t_def)
  moreover have "done_work (fst (enqueue_arrivals ?ps q t)) = 0"
    by (simp only: enqueue_arrivals_eq(1)[OF q(1)] done_work_arrive done_work_rr_new)
  ultimately show "rr_fit inp (rr_init ?ps)"
    using c qcap unfolding i0 by (simp add: rr_fit_def)
qed

lemma set_metrics_m_eq:
  assumes "proc_ok l t p" "remaining p = 0" "t \<le> INT_MAX"
  shows "set_metrics_m p = set_metrics p"
proof -
  obtain a b c where l: "l = (a, b, c)" by (cases l)
  from assms l have f: "arrival p = b" "burst p = c" "0 \<le> b" "0 < c"
    "b + c \<le> completion p" "completion p \<le> t"
    by (auto simp: proc_ok_def)
  from f assms(3) have "wrap32 (completion p - arrival p) = completion p - arrival p"
    by (intro wrap32_id) (auto simp: INT_MIN_def)
  moreover from f assms(3) have "wrap32 (completion p - arrival p - burst p) = completion p - arrival p - burst p"
    by (intro wrap32_id) (auto simp: INT_MIN_def)
  ultimately show ?thesis
    by (simp add: set_metrics_m_def set_metrics_def Let_def)
qed

lemma make_report_m_eq:
  assumes "final_ok inp t ps sgs" "t \<le> INT_MAX"
  shows "make_report_m sgs ps = make_report sgs ps"
proof -
  have "set_metrics_m p = set_metrics p" if "p \<in> set ps" for p
  proof -
    from that obtain i where i: "i < length ps" "ps ! i = p" by (auto simp: in_set_conv_nth)
    with assms(1) have "proc_ok (inp ! i) t p" "remaining p = 0" by (auto simp: final_ok_def)
    from set_metrics_m_eq[OF this assms(2)] show ?thesis .
  qed
  then have meq: "map set_metrics_m ps = map set_metrics ps" by simp
  show ?thesis unfolding make_report_m_def make_report_def meq by simp
qed

lemma rr_simulate_m_refines:
  assumes v: "valid_input inp" and rng: "max_arrival inp + total_burst inp \<le> INT_MAX"
    and qn: "0 < quantum" and g: "g \<longrightarrow> ample alloc inp"
  shows "\<exists>r. rr_simulate quantum (map rr_new_process inp) = Some r \<and>
           ((rr_simulate_m alloc quantum (map rr_new_process inp) = Some (Inl OutOfMemory) \<and> \<not> g) \<or>
            rr_simulate_m alloc quantum (map rr_new_process inp) = Some (Inr r))"
proof -
  let ?ps = "map rr_new_process inp"
  note i = rr_init_m_refines[OF v g]
  note inv0 = rr_init_inv[OF v]
  from rr_loop_m_refines[OF qn rng g inv0 i(2) order_refl]
  obtain s' where s': "rr_loop quantum (rr_init ?ps) = Some s'" "rr_fit inp s'" by auto
  from rr_loop_total[OF inv0 qn] s'(1)
  have inv': "rr_inv inp None (rr_clock s') s'" and ad: "all_done (rr_procs s')" by auto
  from v have ne: "inp \<noteq> []" by (simp add: valid_input_def)
  note fin = final_ok_rr[OF inv' ad ne]
  note f = rr_inv_facts[OF inv']
  from work_bound(2)[OF f(1) f(5)] s'(2) rng have "rr_clock s' \<le> INT_MAX"
    by (simp add: rr_fit_def)
  note mr = make_report_m_eq[OF fin this]
  have sim: "rr_simulate quantum ?ps = Some (make_report (rr_segs s') (rr_procs s'))"
    using s'(1) by (simp add: rr_simulate_def)
  show ?thesis
  proof (cases rule: refines_cases[OF i(1)])
    case 1
    with sim show ?thesis by (simp add: rr_simulate_m_def)
  next
    case (2 c)
    from rr_loop_m_refines[OF qn rng g inv0 i(2) 2(2)] s'(1)
    have "(rr_loop_m alloc quantum (rr_init ?ps, c) = Some (Inl OutOfMemory) \<and> \<not> g) \<or>
          (\<exists>c'. rr_loop_m alloc quantum (rr_init ?ps, c) = Some (Inr (s', c')))"
      by auto
    then show ?thesis
    proof
      assume "rr_loop_m alloc quantum (rr_init ?ps, c) = Some (Inl OutOfMemory) \<and> \<not> g"
      with 2(1) sim show ?thesis by (simp add: rr_simulate_m_def)
    next
      assume "\<exists>c'. rr_loop_m alloc quantum (rr_init ?ps, c) = Some (Inr (s', c'))"
      with 2(1) sim mr show ?thesis by (auto simp: rr_simulate_m_def)
    qed
  qed
qed

lemma rr_main_m_stdin:
  assumes "valid_input inp" "0 < quantum" "granted alloc (Processes (int (length inp)))"
  shows "rr_main_m alloc (rr_stdin quantum inp rest)
           = rr_simulate_m alloc quantum (map rr_new_process inp)"
  using valid_input_line_ok[OF assms(1)] rr_read_procs_lines[of inp rest] assms(2,3)
  by (simp add: rr_main_m_def rr_stdin_def)

lemma rr_main_m_refines:
  assumes v: "valid_input inp" and rng: "max_arrival inp + total_burst inp \<le> INT_MAX"
    and qn: "0 < quantum" and g: "g \<longrightarrow> ample alloc inp"
  shows "\<exists>r. rr_simulate quantum (map rr_new_process inp) = Some r \<and>
           ((rr_main_m alloc (rr_stdin quantum inp rest) = Some (Inl OutOfMemory) \<and> \<not> g) \<or>
            rr_main_m alloc (rr_stdin quantum inp rest) = Some (Inr r))"
proof (cases "granted alloc (Processes (int (length inp)))")
  case True
  from rr_main_m_stdin[OF v qn True] rr_simulate_m_refines[OF v rng qn g]
  show ?thesis by simp
next
  case False
  from valid_input_line_ok[OF v] have n: "0 < length inp" by simp
  with False g have ng: "\<not> g" by (auto simp: ample_def granted_def)
  from n qn False
  have "rr_main_m alloc (rr_stdin quantum inp rest) = Some (Inl OutOfMemory)"
    by (simp add: rr_main_m_def rr_stdin_def)
  moreover obtain s where "rr_loop quantum (rr_init (map rr_new_process inp)) = Some s"
    and "rr_simulate quantum (map rr_new_process inp) = Some (make_report (rr_segs s) (rr_procs s))"
    and "rr_inv inp None (rr_clock s) s"
    and "final_ok inp (rr_clock s) (rr_procs s) (rr_segs s)"
    by (rule rr_run_final[OF v qn])
  ultimately show ?thesis using ng by simp
qed

text \<open>What rr.c does on a valid input whose times fit in \<open>int\<close>.\<close>

lemma rr_main_m_outcome:
  assumes v: "valid_input inp" and rng: "max_arrival inp + total_burst inp \<le> INT_MAX"
    and qn: "0 < quantum"
  shows "\<exists>r. rr_simulate quantum (map rr_new_process inp) = Some r \<and>
           (rr_main_m alloc (rr_stdin quantum inp rest) = Some (Inl OutOfMemory) \<or>
            rr_main_m alloc (rr_stdin quantum inp rest) = Some (Inr r)) \<and>
           (ample alloc inp \<longrightarrow> rr_main_m alloc (rr_stdin quantum inp rest) = Some (Inr r))"
proof -
  from rr_main_m_refines[OF v rng qn, of False alloc rest]
  obtain r where r: "rr_simulate quantum (map rr_new_process inp) = Some r"
    "rr_main_m alloc (rr_stdin quantum inp rest) = Some (Inl OutOfMemory) \<or>
     rr_main_m alloc (rr_stdin quantum inp rest) = Some (Inr r)"
    by auto
  have "rr_main_m alloc (rr_stdin quantum inp rest) = Some (Inr r)" if "ample alloc inp"
    using rr_main_m_refines[OF v rng qn, of True alloc rest] that r(1) by auto
  with r show ?thesis by blast
qed

definition srtf_fit :: "(int \<times> int \<times> int) list \<Rightarrow> srtf_state \<Rightarrow> bool" where
  "srtf_fit inp s = (sj_clock s \<le> max_arrival inp + done_work (sj_procs s))"

lemma srtf_inv_facts:
  assumes "srtf_inv inp s"
  shows "length (sj_procs s) = length inp"
    and "\<forall>i<length inp.
           burst (sj_procs s ! i) = snd (snd (inp ! i)) \<and> 0 \<le> remaining (sj_procs s ! i) \<and>
           remaining (sj_procs s ! i) \<le> burst (sj_procs s ! i)"
    and "\<And>i. i < length inp \<Longrightarrow> arrival (sj_procs s ! i) = fst (snd (inp ! i))"
    and "0 \<le> sj_clock s" and "int (length (sj_segs s)) \<le> sj_clock s"
proof -
  from assms have ok: "\<And>i. i < length inp \<Longrightarrow> proc_ok (inp ! i) (sj_clock s) (sj_procs s ! i)"
    and tl: "chain_from 0 (sj_segs s)" "end_of 0 (sj_segs s) = sj_clock s"
    by (auto simp: srtf_inv_def timeline_ok_def)
  from assms show "length (sj_procs s) = length inp" by (simp add: srtf_inv_def)
  have "burst (sj_procs s ! i) = snd (snd (inp ! i)) \<and> 0 \<le> remaining (sj_procs s ! i) \<and>
           remaining (sj_procs s ! i) \<le> burst (sj_procs s ! i)" if "i < length inp" for i
    using ok[OF that] by (cases "inp ! i") (auto simp: proc_ok_def)
  then show "\<forall>i<length inp.
           burst (sj_procs s ! i) = snd (snd (inp ! i)) \<and> 0 \<le> remaining (sj_procs s ! i) \<and>
           remaining (sj_procs s ! i) \<le> burst (sj_procs s ! i)" by blast
  show "arrival (sj_procs s ! i) = fst (snd (inp ! i))" if "i < length inp" for i
    using ok[OF that] by (cases "inp ! i") (auto simp: proc_ok_def)
  from chain_from_le[OF tl(1)] tl(2) show "0 \<le> sj_clock s" by simp
  from chain_length[OF tl(1)] tl(2) show "int (length (sj_segs s)) \<le> sj_clock s" by simp
qed

lemma srtf_run_m_refines:
  assumes inv: "srtf_inv inp s" and k: "k < length (sj_procs s)"
    and rdy: "ready (sj_procs s) (sj_clock s) k"
    and fit: "srtf_fit inp s" and rng: "max_arrival inp + total_burst inp \<le> INT_MAX"
    and cap: "0 \<le> cap" and g: "g \<longrightarrow> ample alloc inp"
  shows "refines g (srtf_run_m alloc (s, cap) k) (srtf_run s k)"
    and "srtf_fit inp (srtf_run s k)"
proof -
  let ?ps = "sj_procs s" and ?t = "sj_clock s"
  note f = srtf_inv_facts[OF inv]
  note wb = work_bound[OF f(1) f(2)]
  from k f(1) have k': "k < length inp" by simp
  from rdy have pos: "0 < remaining (?ps ! k)" by (simp add: ready_def)
  from fit have clk: "?t \<le> max_arrival inp + done_work ?ps" by (simp add: srtf_fit_def)
  from clk wb(3)[OF k'] pos rng have t1: "?t + 1 \<le> INT_MAX" by linarith
  from f(4) t1 have w1: "wrap32 (?t + 1) = ?t + 1"
    by (intro wrap32_id) (auto simp: INT_MIN_def)
  from wb(1) wb(3)[OF k'] rng max_arrival_nonneg[of inp] have "remaining (?ps ! k) \<le> INT_MAX" by linarith
  with pos have w2: "wrap32 (remaining (?ps ! k) - 1) = remaining (?ps ! k) - 1"
    by (intro wrap32_id) (auto simp: INT_MIN_def)
  have "g \<longrightarrow> (\<forall>r. 0 < count_of r \<longrightarrow> alloc r) \<and> 2 * int (length (sj_segs s)) \<le> INT_MAX"
    using g f(5) clk wb(2) by (auto simp: ample_def)
  from add_segment_m_refines[OF cap this, of "pid (?ps ! k)" ?t "?t + 1"]
  have r: "refines g (add_segment_m alloc (sj_segs s, cap) (pid (?ps ! k)) ?t (?t + 1))
             (add_segment (sj_segs s) (pid (?ps ! k)) ?t (?t + 1))" .
  show "refines g (srtf_run_m alloc (s, cap) k) (srtf_run s k)"
  proof (cases rule: refines_cases[OF r])
    case 1
    then show ?thesis by (simp add: srtf_run_m_def Let_def w1)
  next
    case (2 c)
    then show ?thesis by (simp add: srtf_run_m_def srtf_run_def Let_def w1 w2)
  qed
  note rf = srtf_run_fields[OF k]
  have dw: "done_work (sj_procs (srtf_run s k)) = done_work ?ps + 1"
    unfolding rf by (rule done_work_update) (use k in auto)
  show "srtf_fit inp (srtf_run s k)"
    using clk dw by (simp add: srtf_fit_def rf(1))
qed

lemma srtf_idle_m_refines:
  assumes inv: "srtf_inv inp s" and a: "srtf_next_arrival (sj_procs s) (sj_clock s) = a" "a \<noteq> INT_MAX"
    and fit: "srtf_fit inp s" and rng: "max_arrival inp + total_burst inp \<le> INT_MAX"
    and cap: "0 \<le> cap" and g: "g \<longrightarrow> ample alloc inp"
  shows "refines g (srtf_idle_m alloc (s, cap) a) (srtf_idle s a)"
    and "srtf_fit inp (srtf_idle s a)"
proof -
  let ?ps = "sj_procs s" and ?t = "sj_clock s"
  note f = srtf_inv_facts[OF inv]
  note wb = work_bound[OF f(1) f(2)]
  from fit have clk: "?t \<le> max_arrival inp + done_work ?ps" by (simp add: srtf_fit_def)
  from next_arr_fold[OF a(1)[unfolded srtf_next_arrival_def]] a(2)
  obtain p where p: "p \<in> set ?ps" "arrival p = a" by auto
  then obtain j where j: "j < length inp" "?ps ! j = p"
    using f(1) by (auto simp: in_set_conv_nth)
  from f(3)[OF j(1)] j(2) p(2) have "a = fst (snd (inp ! j))" by simp
  with max_arrival_ge[of "inp ! j" inp] j(1) have am: "a \<le> max_arrival inp" by simp
  have "g \<longrightarrow> (\<forall>r. 0 < count_of r \<longrightarrow> alloc r) \<and> 2 * int (length (sj_segs s)) \<le> INT_MAX"
    using g f(5) clk wb(2) by (auto simp: ample_def)
  from add_segment_m_refines[OF cap this, of "- 1" ?t a]
  have r: "refines g (add_segment_m alloc (sj_segs s, cap) (- 1) ?t a)
             (add_segment (sj_segs s) (- 1) ?t a)" .
  show "refines g (srtf_idle_m alloc (s, cap) a) (srtf_idle s a)"
  proof (cases rule: refines_cases[OF r])
    case 1
    then show ?thesis by (simp add: srtf_idle_m_def)
  next
    case (2 c)
    then show ?thesis by (simp add: srtf_idle_m_def srtf_idle_def)
  qed
  show "srtf_fit inp (srtf_idle s a)"
    using am wb(1) by (simp add: srtf_fit_def srtf_idle_def)
qed

lemma srtf_iter_m_refines:
  assumes inv: "srtf_inv inp s"
    and fit: "srtf_fit inp s" and rng: "max_arrival inp + total_burst inp \<le> INT_MAX"
    and cap: "0 \<le> cap" and g: "g \<longrightarrow> ample alloc inp"
  shows "srtf_iter s = None \<Longrightarrow> srtf_iter_m alloc (s, cap) = Inr None"
    and "srtf_iter s = Some s' \<Longrightarrow> srtf_fit inp s' \<and>
           ((srtf_iter_m alloc (s, cap) = Inl OutOfMemory \<and> \<not> g) \<or>
            (\<exists>c. srtf_iter_m alloc (s, cap) = Inr (Some (s', c)) \<and> 0 \<le> c))"
proof -
  show "srtf_iter_m alloc (s, cap) = Inr None" if "srtf_iter s = None"
    using that by (auto simp: srtf_iter_def srtf_iter_m_def Let_def split: option.splits if_splits)
  show "srtf_fit inp s' \<and>
           ((srtf_iter_m alloc (s, cap) = Inl OutOfMemory \<and> \<not> g) \<or>
            (\<exists>c. srtf_iter_m alloc (s, cap) = Inr (Some (s', c)) \<and> 0 \<le> c))"
    if it: "srtf_iter s = Some s'"
  proof (cases "srtf_pick (sj_procs s) (sj_clock s)")
    case None
    let ?a = "srtf_next_arrival (sj_procs s) (sj_clock s)"
    from None it have ne: "?a \<noteq> INT_MAX" and s': "s' = srtf_idle s ?a"
      by (auto simp: srtf_iter_def Let_def split: if_splits)
    note i = srtf_idle_m_refines[OF inv refl ne fit rng cap g]
    have im: "srtf_iter_m alloc (s, cap) = map_sum id Some (srtf_idle_m alloc (s, cap) ?a)"
      using None ne by (simp add: srtf_iter_m_def Let_def)
    from i(1) have "(srtf_iter_m alloc (s, cap) = Inl OutOfMemory \<and> \<not> g) \<or>
            (\<exists>c. srtf_iter_m alloc (s, cap) = Inr (Some (srtf_idle s ?a, c)) \<and> 0 \<le> c)"
      unfolding im by (cases rule: refines_cases) simp_all
    with i(2) s' show ?thesis by simp
  next
    case (Some k)
    with it have s': "s' = srtf_run s k" by (simp add: srtf_iter_def)
    from srtf_pick_Some[OF Some] have k: "k < length (sj_procs s)" "ready (sj_procs s) (sj_clock s) k"
      by auto
    note r = srtf_run_m_refines[OF inv k fit rng cap g]
    have im: "srtf_iter_m alloc (s, cap) = map_sum id Some (srtf_run_m alloc (s, cap) k)"
      using Some by (simp add: srtf_iter_m_def)
    from r(1) have "(srtf_iter_m alloc (s, cap) = Inl OutOfMemory \<and> \<not> g) \<or>
            (\<exists>c. srtf_iter_m alloc (s, cap) = Inr (Some (srtf_run s k, c)) \<and> 0 \<le> c)"
      unfolding im by (cases rule: refines_cases) simp_all
    with r(2) s' show ?thesis by simp
  qed
qed

lemma srtf_loop_m_refines:
  assumes rng: "max_arrival inp + total_burst inp \<le> INT_MAX" and g: "g \<longrightarrow> ample alloc inp"
    and "srtf_inv inp s" "srtf_fit inp s" "0 \<le> cap"
  shows "srtf_fit inp (srtf_loop s) \<and>
           ((srtf_loop_m alloc (s, cap) = Some (Inl OutOfMemory) \<and> \<not> g) \<or>
            (\<exists>c. srtf_loop_m alloc (s, cap) = Some (Inr (srtf_loop s, c))))"
  using assms(3-5)
proof (induction s arbitrary: cap rule: srtf_loop.induct)
  case (1 s)
  show ?case
  proof (cases "all_done (sj_procs s)")
    case True
    have "srtf_loop s = s" using True by (subst srtf_loop.simps) simp
    moreover have "srtf_loop_m alloc (s, cap) = Some (Inr (s, cap))"
      using True by (subst srtf_loop_m.simps) simp
    ultimately show ?thesis using "1.prems"(2) by simp
  next
    case nd: False
    show ?thesis
    proof (cases "srtf_iter s")
      case None
      have "srtf_loop s = s" using nd None by (subst srtf_loop.simps) simp
      moreover have "srtf_loop_m alloc (s, cap) = Some (Inr (s, cap))"
        using nd srtf_iter_m_refines(1)[OF "1.prems"(1,2) rng "1.prems"(3) g None]
        by (subst srtf_loop_m.simps) simp
      ultimately show ?thesis using "1.prems"(2) by simp
    next
      case (Some s1)
      note inv1 = srtf_inv_iter[OF "1.prems"(1) Some]
      from srtf_iter_m_refines(2)[OF "1.prems"(1,2) rng "1.prems"(3) g Some]
      have fit1: "srtf_fit inp s1"
        and m: "(srtf_iter_m alloc (s, cap) = Inl OutOfMemory \<and> \<not> g) \<or>
            (\<exists>c. srtf_iter_m alloc (s, cap) = Inr (Some (s1, c)) \<and> 0 \<le> c)"
        by auto
      have lp: "srtf_loop s = srtf_loop s1"
        using nd Some by (subst srtf_loop.simps) simp
      from m show ?thesis
      proof
        assume oom: "srtf_iter_m alloc (s, cap) = Inl OutOfMemory \<and> \<not> g"
        then have "srtf_loop_m alloc (s, cap) = Some (Inl OutOfMemory)"
          using nd by (subst srtf_loop_m.simps) simp
        with "1.IH"[OF nd Some inv1 fit1, of 0] oom lp show ?thesis by simp
      next
        assume "\<exists>c. srtf_iter_m alloc (s, cap) = Inr (Some (s1, c)) \<and> 0 \<le> c"
        then obtain c where c: "srtf_iter_m alloc (s, cap) = Inr (Some (s1, c))" "0 \<le> c" by auto
        then have "srtf_loop_m alloc (s, cap) = srtf_loop_m alloc (s1, c)"
          using nd by (subst srtf_loop_m.simps) simp
        with "1.IH"[OF nd Some inv1 fit1 c(2)] lp show ?thesis by simp
      qed
    qed
  qed
qed

lemma srtf_fit_init: "srtf_fit inp (srtf_init (map new_process inp))"
  using max_arrival_nonneg[of inp] by (simp add: srtf_fit_def srtf_init_def done_work_new)

lemma srtf_simulate_m_refines:
  assumes v: "valid_input inp" and rng: "max_arrival inp + total_burst inp \<le> INT_MAX"
    and g: "g \<longrightarrow> ample alloc inp"
  shows "srtf_fit inp (srtf_final inp)"
    and "(srtf_simulate_m alloc (map new_process inp) = Some (Inl OutOfMemory) \<and> \<not> g) \<or>
         srtf_simulate_m alloc (map new_process inp)
           = Some (Inr (make_report_m (sj_segs (srtf_final inp)) (sj_procs (srtf_final inp))))"
  using srtf_loop_m_refines[OF rng g srtf_inv_init[OF v] srtf_fit_init order_refl]
  by (auto simp: srtf_simulate_m_def srtf_final_def)

lemma srtf_main_m_refines:
  assumes v: "valid_input inp" and rng: "max_arrival inp + total_burst inp \<le> INT_MAX"
    and g: "g \<longrightarrow> ample alloc inp"
  shows "(srtf_main_m alloc (srtf_stdin inp rest) = Some (Inl OutOfMemory) \<and> \<not> g) \<or>
         srtf_main_m alloc (srtf_stdin inp rest)
           = Some (Inr (make_report_m (sj_segs (srtf_final inp)) (sj_procs (srtf_final inp))))"
proof (cases "granted alloc (Processes (int (length inp)))")
  case True
  from valid_input_line_ok[OF v] read_procs_lines[of inp rest] True
  have "srtf_main_m alloc (srtf_stdin inp rest) = srtf_simulate_m alloc (map new_process inp)"
    by (simp add: srtf_main_m_def srtf_stdin_def)
  with srtf_simulate_m_refines(2)[OF v rng g] show ?thesis by simp
next
  case False
  from valid_input_line_ok[OF v] have n: "0 < length inp" by simp
  with False g have ng: "\<not> g" by (auto simp: ample_def granted_def)
  from n False
  have "srtf_main_m alloc (srtf_stdin inp rest) = Some (Inl OutOfMemory)"
    by (simp add: srtf_main_m_def srtf_stdin_def)
  with ng show ?thesis by simp
qed

lemma srtf_main_m_outcome:
  assumes v: "valid_input inp" and rng: "max_arrival inp + total_burst inp \<le> INT_MAX"
  shows "srtf_main_m alloc (srtf_stdin inp rest) = Some (Inl OutOfMemory) \<or>
         srtf_main_m alloc (srtf_stdin inp rest)
           = Some (Inr (make_report_m (sj_segs (srtf_final inp)) (sj_procs (srtf_final inp))))"
    and "ample alloc inp \<Longrightarrow>
         srtf_main_m alloc (srtf_stdin inp rest)
           = Some (Inr (make_report_m (sj_segs (srtf_final inp)) (sj_procs (srtf_final inp))))"
  using srtf_main_m_refines[OF v rng, of False alloc rest]
    srtf_main_m_refines[OF v rng, of True alloc rest]
  by auto

text \<open>The final clock value of sjf.c is within range too.\<close>

lemma srtf_final_clock:
  assumes v: "valid_input inp" and rng: "max_arrival inp + total_burst inp \<le> INT_MAX"
  shows "sj_clock (srtf_final inp) \<le> INT_MAX"
proof -
  have "True \<longrightarrow> True" by simp
  note f = srtf_inv_facts[OF srtf_final_inv[OF v]]
  have "srtf_fit inp (srtf_final inp)"
    using srtf_loop_m_refines[OF rng _ srtf_inv_init[OF v] srtf_fit_init order_refl, of False "\<lambda>r. True"]
    by (simp add: srtf_final_def)
  with work_bound(2)[OF f(1) f(2)] rng show ?thesis by (simp add: srtf_fit_def)
qed

section \<open>Reports within and beyond the range of int\<close>

text \<open>
  Two allocators for the evaluated runs: one that grants every request, one that grants
  none.  \<open>lines_of\<close> reads the table back from the records of a report, and
  \<open>int_tokens\<close> says that every number of an input is within \<open>int\<close>.
\<close>

definition unlimited :: "request \<Rightarrow> bool" where
  "unlimited r = True"


definition lines_of :: "'a process_scheme list \<Rightarrow> (int \<times> int \<times> int) list" where
  "lines_of ps = map (\<lambda>p. (pid p, arrival p, burst p)) ps"

definition int_tokens :: "token list \<Rightarrow> bool" where
  "int_tokens ts = list_all (\<lambda>t. case t of Num v \<Rightarrow> INT_MIN \<le> v \<and> v \<le> INT_MAX | Junk \<Rightarrow> True) ts"

lemma make_report_m_fields:
  "rp_segs (make_report_m sgs ps) = sgs"
  "rp_procs (make_report_m sgs ps) = map set_metrics_m ps"
  by (simp_all add: make_report_m_def Let_def)

lemma set_metrics_m_fields [simp]:
  "pid (set_metrics_m p) = pid p" "arrival (set_metrics_m p) = arrival p"
  "burst (set_metrics_m p) = burst p" "remaining (set_metrics_m p) = remaining p"
  "completion (set_metrics_m p) = completion p"
  by (simp_all add: set_metrics_m_def Let_def)

lemma all_done_set_metrics_m: "all_done (map set_metrics_m ps) = all_done ps"
  by (simp add: all_done_iff)

lemma all_done_set_metrics: "all_done (map set_metrics ps) = all_done ps"
  by (simp add: all_done_iff)

lemma lines_of_set_metrics_m: "lines_of (map set_metrics_m ps) = lines_of ps"
  by (simp add: lines_of_def)

lemma lines_of_set_metrics: "lines_of (map set_metrics ps) = lines_of ps"
  by (simp add: lines_of_def)

lemma lines_of_ok:
  assumes "length ps = length inp" "\<And>i. i < length inp \<Longrightarrow> proc_ok (inp ! i) t (ps ! i)"
  shows "lines_of ps = inp"
proof (rule nth_equalityI)
  show "length (lines_of ps) = length inp" using assms(1) by (simp add: lines_of_def)
next
  fix i assume "i < length (lines_of ps)"
  then have i: "i < length inp" "i < length ps" using assms(1) by (simp_all add: lines_of_def)
  from assms(2)[OF i(1)] i(2) show "lines_of ps ! i = inp ! i"
    by (cases "inp ! i") (simp add: lines_of_def proc_ok_def)
qed

lemma fits_int_range: "fits_int inp \<Longrightarrow> max_arrival inp + total_burst inp \<le> INT_MAX"
  by (simp add: fits_int_def)

text \<open>The report of rr.c on a valid input whose times fit in \<open>int\<close>.\<close>

lemma rr_report_in_range:
  assumes v: "valid_input inp" and rng: "max_arrival inp + total_burst inp \<le> INT_MAX"
    and qn: "0 < quantum"
  shows "\<exists>s :: rr_state. (rr_main_m alloc (rr_stdin quantum inp rest) = Some (Inl OutOfMemory) \<or>
              rr_main_m alloc (rr_stdin quantum inp rest)
                = Some (Inr (make_report (rr_segs s) (rr_procs s)))) \<and>
             (ample alloc inp \<longrightarrow>
                rr_main_m alloc (rr_stdin quantum inp rest)
                  = Some (Inr (make_report (rr_segs s) (rr_procs s)))) \<and>
             final_ok inp (rr_clock s) (rr_procs s) (rr_segs s)"
proof -
  obtain s where "rr_loop quantum (rr_init (map rr_new_process inp)) = Some s"
    and sim: "rr_simulate quantum (map rr_new_process inp) = Some (make_report (rr_segs s) (rr_procs s))"
    and "rr_inv inp None (rr_clock s) s"
    and fin: "final_ok inp (rr_clock s) (rr_procs s) (rr_segs s)"
    by (rule rr_run_final[OF v qn])
  from rr_main_m_outcome[OF v rng qn, of alloc rest]
  obtain r where r: "rr_simulate quantum (map rr_new_process inp) = Some r"
    and d: "rr_main_m alloc (rr_stdin quantum inp rest) = Some (Inl OutOfMemory) \<or>
         rr_main_m alloc (rr_stdin quantum inp rest) = Some (Inr r)"
    and a: "ample alloc inp \<longrightarrow> rr_main_m alloc (rr_stdin quantum inp rest) = Some (Inr r)"
    by blast
  from r sim have req: "r = make_report (rr_segs s) (rr_procs s)" by simp
  from d[unfolded req] a[unfolded req] fin show ?thesis by blast
qed

lemma final_ok_lines:
  assumes "final_ok inp t ps sgs"
  shows "lines_of (map set_metrics ps) = inp" and "all_done (map set_metrics ps)"
proof -
  from assms have len: "length ps = length inp"
    and ok: "\<And>i. i < length inp \<Longrightarrow> proc_ok (inp ! i) t (ps ! i)"
    and z: "\<And>i. i < length inp \<Longrightarrow> remaining (ps ! i) = 0"
    by (auto simp: final_ok_def)
  from lines_of_ok[OF len ok] show "lines_of (map set_metrics ps) = inp"
    by (simp add: lines_of_set_metrics)
  from z len show "all_done (map set_metrics ps)"
    by (auto simp: all_done_iff in_set_conv_nth)
qed

text \<open>The report of sjf.c on a valid input whose times fit in \<open>int\<close>.\<close>

lemma srtf_report_in_range:
  assumes v: "valid_input inp" and rng: "max_arrival inp + total_burst inp \<le> INT_MAX"
  shows "lines_of (map set_metrics_m (sj_procs (srtf_final inp))) = inp"
    and "list_all (\<lambda>p. remaining p = 0 \<longrightarrow> metrics_ok p) (map set_metrics_m (sj_procs (srtf_final inp)))"
    and "all_done (sj_procs (srtf_final inp)) \<Longrightarrow>
           make_report_m (sj_segs (srtf_final inp)) (sj_procs (srtf_final inp))
             = make_report (sj_segs (srtf_final inp)) (sj_procs (srtf_final inp)) \<and>
           final_ok inp (sj_clock (srtf_final inp)) (sj_procs (srtf_final inp)) (sj_segs (srtf_final inp))"
proof -
  let ?s = "srtf_final inp"
  let ?ps = "sj_procs ?s"
  note inv = srtf_final_inv[OF v]
  note ck = srtf_final_clock[OF v rng]
  from inv have len: "length ?ps = length inp"
    and ok: "\<And>i. i < length inp \<Longrightarrow> proc_ok (inp ! i) (sj_clock ?s) (?ps ! i)"
    by (auto simp: srtf_inv_def)
  from lines_of_ok[OF len ok] show "lines_of (map set_metrics_m ?ps) = inp"
    by (simp add: lines_of_set_metrics_m)
  have "remaining (set_metrics_m (?ps ! i)) = 0 \<longrightarrow> metrics_ok (set_metrics_m (?ps ! i))"
    if i: "i < length ?ps" for i
  proof
    assume "remaining (set_metrics_m (?ps ! i)) = 0"
    then have z: "remaining (?ps ! i) = 0" by simp
    from i len have i': "i < length inp" by simp
    from set_metrics_m_eq[OF ok[OF i'] z ck]
    have "set_metrics_m (?ps ! i) = set_metrics (?ps ! i)" .
    moreover from ok[OF i'] z have "metrics_ok (set_metrics (?ps ! i))"
      by (cases "inp ! i") (auto simp: proc_ok_def metrics_ok_def)
    ultimately show "metrics_ok (set_metrics_m (?ps ! i))" by simp
  qed
  then show "list_all (\<lambda>p. remaining p = 0 \<longrightarrow> metrics_ok p) (map set_metrics_m ?ps)"
    by (simp add: list_all_length)
  assume ad: "all_done ?ps"
  note fin = srtf_run_final[OF v ad]
  from make_report_m_eq[OF fin ck] fin
  show "make_report_m (sj_segs ?s) ?ps = make_report (sj_segs ?s) ?ps \<and>
           final_ok inp (sj_clock ?s) ?ps (sj_segs ?s)" by simp
qed

lemma lines_A_fits: "fits_int lines_A"
  by (simp add: fits_int_def lines_A_def total_burst_def INT_MIN_def INT_MAX_def)

lemma lines_A_ample: "ample unlimited lines_A"
  by (simp add: ample_def unlimited_def lines_A_def total_burst_def INT_MAX_def)

lemma lines_A_below: "below_INT_MAX lines_A"
  by (simp add: below_INT_MAX_def lines_A_def INT_MAX_def)

text \<open>
  The two runs beyond the range of \<open>int\<close> used below, evaluated: rr.c with quantum 1 on
  the line \<open>1 2147483647 1\<close>, and sjf.c on the line \<open>1 2147483646 2\<close>.
\<close>

lemma rr_overflow_run:
  "map_option (map_sum id (\<lambda>r. (seg_triples (rp_segs r), map completion (rp_procs r),
       lines_of (rp_procs r), map turnaround (rp_procs r),
       map waiting (rp_procs r), map remaining (rp_procs r))))
     (rr_main_m unlimited (rr_stdin 1 [(1, 2147483647, 1)] []))
   = Some (Inr ([(- 1, 0, 2147483647), (1, 2147483647, - 2147483648)], [- 2147483648],
                [(1, 2147483647, 1)], [1], [0], [0]))"
  by code_simp

lemma srtf_overflow_run:
  "map_option (map_sum id (\<lambda>r. (seg_triples (rp_segs r), map completion (rp_procs r),
       lines_of (rp_procs r), map turnaround (rp_procs r),
       map waiting (rp_procs r), map remaining (rp_procs r))))
     (srtf_main_m unlimited (srtf_stdin [(1, 2147483646, 2)] []))
   = Some (Inr ([(- 1, 0, 2147483646), (1, 2147483646, - 2147483648)], [- 2147483648],
                [(1, 2147483646, 2)], [2], [0], [0]))"
  by code_simp

lemma run_cases:
  assumes "map_option (map_sum id f) x = Some (Inr y)"
  obtains r where "x = Some (Inr r)" "f r = y"
proof -
  from assms obtain z where z: "x = Some z" "map_sum id f z = Inr y" by auto
  then obtain r where "z = Inr r" "f r = y" by (cases z) auto
  with z that show ?thesis by simp
qed

lemma two_segments:
  assumes "seg_triples sgs = [(p1, a1, b1), (p2, a2, b2)]"
  shows "\<exists>x y. sgs = [x, y] \<and> s_start x = a1 \<and> s_end x = b1 \<and> s_start y = a2 \<and> s_end y = b2"
  using assms by (auto simp: seg_triples_def)

lemma one_record:
  assumes "map completion ps = [c]"
  shows "\<exists>p. ps = [p]"
  using assms by auto

lemma overflow_timeline:
  assumes sg: "seg_triples sgs = [(- 1, 0, a), (1, a, - 2147483648)]" and a: "0 < a"
    and c: "map completion ps = [- 2147483648]"
  shows "max_completion ps = - 2147483648" and "\<not> contiguous sgs"
    and "\<not> covers sgs (max_completion ps)"
proof -
  from two_segments[OF sg] obtain x y where s: "sgs = [x, y]" "s_start x = 0" "s_end x = a"
    "s_start y = a" "s_end y = - 2147483648" by auto
  from c have "set (map completion ps) = {- 2147483648}" by simp
  then show m: "max_completion ps = - 2147483648" by (simp add: max_completion_def)
  from s a show "\<not> contiguous sgs" by (simp add: contiguous_def)
  have "0 \<in> (\<Union>s\<in>set sgs. {s_start s..<s_end s})" using s a by simp
  moreover have "(0 :: int) \<notin> {0..<max_completion ps}" by (simp add: m)
  ultimately show "\<not> covers sgs (max_completion ps)" unfolding covers_def by metis
qed

text \<open>
  C5, as stated, fails when the clock passes \<open>INT_MAX\<close>.  rr.c with quantum 1 on the
  valid input \<open>n = 1\<close>, line \<open>1 2147483647 1\<close> completes and prints the segments
  \<open>[0 - 2147483647] IDLE\<close> and \<open>[2147483647 - -2147483648] P1\<close>: the second ends
  before it starts, the largest completion time is \<open>-2147483648\<close>, and instant 0 is in a
  segment while \<open>[0, max completion)\<close> is empty.  sjf.c does the same on the line
  \<open>1 2147483646 2\<close>.
\<close>

theorem timeline_breaks_on_overflow:
  "valid_input [(1, 2147483647, 1)] \<and> valid_input [(1, 2147483646, 2)] \<and>
   (\<exists>r. rr_main_m unlimited (rr_stdin 1 [(1, 2147483647, 1)] []) = Some (Inr r) \<and>
        seg_triples (rp_segs r) = [(- 1, 0, 2147483647), (1, 2147483647, - 2147483648)] \<and>
        all_done (rp_procs r) \<and> max_completion (rp_procs r) = - 2147483648 \<and>
        \<not> contiguous (rp_segs r) \<and> \<not> covers (rp_segs r) (max_completion (rp_procs r))) \<and>
   (\<exists>r. srtf_main_m unlimited (srtf_stdin [(1, 2147483646, 2)] []) = Some (Inr r) \<and>
        seg_triples (rp_segs r) = [(- 1, 0, 2147483646), (1, 2147483646, - 2147483648)] \<and>
        all_done (rp_procs r) \<and> max_completion (rp_procs r) = - 2147483648 \<and>
        \<not> contiguous (rp_segs r) \<and> \<not> covers (rp_segs r) (max_completion (rp_procs r)))"
proof (intro conjI)
  show "valid_input [(1, 2147483647, 1)]" "valid_input [(1, 2147483646, 2)]"
    by (simp_all add: valid_input_def)
next
  from rr_overflow_run obtain r where r: "rr_main_m unlimited (rr_stdin 1 [(1, 2147483647, 1)] []) = Some (Inr r)"
    and f: "(seg_triples (rp_segs r), map completion (rp_procs r),
       lines_of (rp_procs r), map turnaround (rp_procs r),
       map waiting (rp_procs r), map remaining (rp_procs r))
      = ([(- 1, 0, 2147483647), (1, 2147483647, - 2147483648)], [- 2147483648],
                [(1, 2147483647, 1)], [1], [0], [0])"
    by (rule run_cases)
  from f have sg: "seg_triples (rp_segs r) = [(- 1, 0, 2147483647), (1, 2147483647, - 2147483648)]"
    and c: "map completion (rp_procs r) = [- 2147483648]"
    and z: "map remaining (rp_procs r) = [0]" by simp_all
  from z have ad: "all_done (rp_procs r)" by (auto simp: all_done_iff)
  note o = overflow_timeline[OF sg _ c]
  from r sg ad o
  show "\<exists>r. rr_main_m unlimited (rr_stdin 1 [(1, 2147483647, 1)] []) = Some (Inr r) \<and>
        seg_triples (rp_segs r) = [(- 1, 0, 2147483647), (1, 2147483647, - 2147483648)] \<and>
        all_done (rp_procs r) \<and> max_completion (rp_procs r) = - 2147483648 \<and>
        \<not> contiguous (rp_segs r) \<and> \<not> covers (rp_segs r) (max_completion (rp_procs r))"
    by simp
next
  from srtf_overflow_run obtain r where r: "srtf_main_m unlimited (srtf_stdin [(1, 2147483646, 2)] []) = Some (Inr r)"
    and f: "(seg_triples (rp_segs r), map completion (rp_procs r),
       lines_of (rp_procs r), map turnaround (rp_procs r),
       map waiting (rp_procs r), map remaining (rp_procs r))
      = ([(- 1, 0, 2147483646), (1, 2147483646, - 2147483648)], [- 2147483648],
                [(1, 2147483646, 2)], [2], [0], [0])"
    by (rule run_cases)
  from f have sg: "seg_triples (rp_segs r) = [(- 1, 0, 2147483646), (1, 2147483646, - 2147483648)]"
    and c: "map completion (rp_procs r) = [- 2147483648]"
    and z: "map remaining (rp_procs r) = [0]" by simp_all
  from z have ad: "all_done (rp_procs r)" by (auto simp: all_done_iff)
  note o = overflow_timeline[OF sg _ c]
  from r sg ad o
  show "\<exists>r. srtf_main_m unlimited (srtf_stdin [(1, 2147483646, 2)] []) = Some (Inr r) \<and>
        seg_triples (rp_segs r) = [(- 1, 0, 2147483646), (1, 2147483646, - 2147483648)] \<and>
        all_done (rp_procs r) \<and> max_completion (rp_procs r) = - 2147483648 \<and>
        \<not> contiguous (rp_segs r) \<and> \<not> covers (rp_segs r) (max_completion (rp_procs r))"
    by simp
qed

text \<open>
  C5, amended.  Take a valid input whose times fit in \<open>int\<close> (the largest arrival plus
  the sum of the bursts is at most \<open>INT_MAX\<close>, so that no clock value overflows), and for
  rr.c a quantum in \<open>(0, INT_MAX]\<close>.  Each program either stops on a failed allocation or
  prints its report, and prints it when no allocation fails (\<open>ample\<close>).  The segments of
  the report are sorted by start, do not overlap, and each begins where the one before
  ends, the first at 0.  They cover exactly \<open>[0, max completion)\<close> in every report of
  rr.c, whose runs always complete, and in every report of a completed run of sjf.c: no
  instant of that interval is outside a segment, so every gap between process segments
  is an IDLE segment.
\<close>

theorem timeline_covers_in_range:
  assumes "valid_input inp" "fits_int inp" "0 < quantum" "quantum \<le> INT_MAX"
  shows "(rr_main_m alloc (rr_stdin quantum inp rest) = Some (Inl OutOfMemory) \<or>
          (\<exists>r. rr_main_m alloc (rr_stdin quantum inp rest) = Some (Inr r) \<and>
               contiguous (rp_segs r) \<and> covers (rp_segs r) (max_completion (rp_procs r)))) \<and>
         (ample alloc inp \<longrightarrow> (\<exists>r. rr_main_m alloc (rr_stdin quantum inp rest) = Some (Inr r))) \<and>
         (srtf_main_m alloc (srtf_stdin inp rest) = Some (Inl OutOfMemory) \<or>
          (\<exists>r. srtf_main_m alloc (srtf_stdin inp rest) = Some (Inr r) \<and>
               contiguous (rp_segs r) \<and>
               (all_done (rp_procs r) \<longrightarrow> covers (rp_segs r) (max_completion (rp_procs r))))) \<and>
         (ample alloc inp \<longrightarrow> (\<exists>r. srtf_main_m alloc (srtf_stdin inp rest) = Some (Inr r)))"
proof -
  note rng = fits_int_range[OF assms(2)]
  from rr_report_in_range[OF assms(1) rng assms(3), of alloc rest]
  obtain s :: rr_state where
    d: "rr_main_m alloc (rr_stdin quantum inp rest) = Some (Inl OutOfMemory) \<or>
        rr_main_m alloc (rr_stdin quantum inp rest) = Some (Inr (make_report (rr_segs s) (rr_procs s)))"
    and a: "ample alloc inp \<longrightarrow>
        rr_main_m alloc (rr_stdin quantum inp rest) = Some (Inr (make_report (rr_segs s) (rr_procs s)))"
    and fin: "final_ok inp (rr_clock s) (rr_procs s) (rr_segs s)"
    by blast
  let ?r = "make_report (rr_segs s) (rr_procs s)"
  from final_ok_covers[OF fin]
  have p: "contiguous (rp_segs ?r) \<and> covers (rp_segs ?r) (max_completion (rp_procs ?r))"
    by (simp add: make_report_fields)
  have rr1: "rr_main_m alloc (rr_stdin quantum inp rest) = Some (Inl OutOfMemory) \<or>
          (\<exists>r. rr_main_m alloc (rr_stdin quantum inp rest) = Some (Inr r) \<and>
               contiguous (rp_segs r) \<and> covers (rp_segs r) (max_completion (rp_procs r)))"
    using d p by blast
  have rr2: "ample alloc inp \<longrightarrow> (\<exists>r. rr_main_m alloc (rr_stdin quantum inp rest) = Some (Inr r))"
    using a by blast
  let ?f = "srtf_final inp"
  let ?m = "make_report_m (sj_segs ?f) (sj_procs ?f)"
  note o = srtf_main_m_outcome[OF assms(1) rng, of alloc rest]
  note sr = srtf_report_in_range[OF assms(1) rng]
  have c: "contiguous (rp_segs ?m)"
    using srtf_final_timeline(1)[OF assms(1)] by (simp add: make_report_m_fields)
  have cv: "covers (rp_segs ?m) (max_completion (rp_procs ?m))" if "all_done (rp_procs ?m)"
  proof -
    from that have ad: "all_done (sj_procs ?f)"
      by (simp add: make_report_m_fields all_done_set_metrics_m)
    from sr(3)[OF ad] final_ok_covers[of inp "sj_clock ?f" "sj_procs ?f" "sj_segs ?f"]
    show ?thesis by (simp add: make_report_fields)
  qed
  have sj1: "srtf_main_m alloc (srtf_stdin inp rest) = Some (Inl OutOfMemory) \<or>
          (\<exists>r. srtf_main_m alloc (srtf_stdin inp rest) = Some (Inr r) \<and>
               contiguous (rp_segs r) \<and>
               (all_done (rp_procs r) \<longrightarrow> covers (rp_segs r) (max_completion (rp_procs r))))"
    using o(1) c cv by blast
  have sj2: "ample alloc inp \<longrightarrow> (\<exists>r. srtf_main_m alloc (srtf_stdin inp rest) = Some (Inr r))"
    using o(2) by blast
  from rr1 rr2 sj1 sj2 show ?thesis by (intro conjI)
qed

lemma quantum_2: "(0 :: int) < 2 \<and> (2 :: int) \<le> INT_MAX"
  by (simp add: INT_MAX_def)

lemma lines_A_srtf_report:
  shows "srtf_main_m unlimited (srtf_stdin lines_A [])
     = Some (Inr (make_report_m (sj_segs (srtf_final lines_A)) (sj_procs (srtf_final lines_A))))"
  and "all_done (rp_procs (make_report_m (sj_segs (srtf_final lines_A)) (sj_procs (srtf_final lines_A))))"
  using srtf_main_m_outcome(2)[OF lines_A_valid fits_int_range[OF lines_A_fits] lines_A_ample]
    srtf_completes[OF lines_A_valid lines_A_below]
  by (simp_all add: make_report_m_fields all_done_set_metrics_m)

theorem timeline_covers_in_range_witness:
  "valid_input lines_A \<and> fits_int lines_A \<and> (0 :: int) < 2 \<and> (2 :: int) \<le> INT_MAX \<and>
   ample unlimited lines_A \<and>
   (\<exists>r. rr_main_m unlimited (rr_stdin 2 lines_A []) = Some (Inr r) \<and>
        contiguous (rp_segs r) \<and> covers (rp_segs r) (max_completion (rp_procs r))) \<and>
   (\<exists>r. srtf_main_m unlimited (srtf_stdin lines_A []) = Some (Inr r) \<and> all_done (rp_procs r) \<and>
        contiguous (rp_segs r) \<and> covers (rp_segs r) (max_completion (rp_procs r)))"
proof -
  let ?m = "make_report_m (sj_segs (srtf_final lines_A)) (sj_procs (srtf_final lines_A))"
  note t = timeline_covers_in_range[OF lines_A_valid lines_A_fits conjunct1[OF quantum_2]
      conjunct2[OF quantum_2], of unlimited "[]"]
  from t have r1: "rr_main_m unlimited (rr_stdin 2 lines_A []) = Some (Inl OutOfMemory) \<or>
          (\<exists>r. rr_main_m unlimited (rr_stdin 2 lines_A []) = Some (Inr r) \<and>
               contiguous (rp_segs r) \<and> covers (rp_segs r) (max_completion (rp_procs r)))"
    and r2: "ample unlimited lines_A \<longrightarrow> (\<exists>r. rr_main_m unlimited (rr_stdin 2 lines_A []) = Some (Inr r))"
    and s1: "srtf_main_m unlimited (srtf_stdin lines_A []) = Some (Inl OutOfMemory) \<or>
          (\<exists>r. srtf_main_m unlimited (srtf_stdin lines_A []) = Some (Inr r) \<and>
               contiguous (rp_segs r) \<and>
               (all_done (rp_procs r) \<longrightarrow> covers (rp_segs r) (max_completion (rp_procs r))))"
    by blast+
  from r2 lines_A_ample obtain r0 where r0: "rr_main_m unlimited (rr_stdin 2 lines_A []) = Some (Inr r0)"
    by blast
  with r1 have rr: "\<exists>r. rr_main_m unlimited (rr_stdin 2 lines_A []) = Some (Inr r) \<and>
        contiguous (rp_segs r) \<and> covers (rp_segs r) (max_completion (rp_procs r))"
    by simp
  from s1 lines_A_srtf_report(1)
  have "contiguous (rp_segs ?m) \<and>
        (all_done (rp_procs ?m) \<longrightarrow> covers (rp_segs ?m) (max_completion (rp_procs ?m)))"
    by simp
  with lines_A_srtf_report
  have sj: "\<exists>r. srtf_main_m unlimited (srtf_stdin lines_A []) = Some (Inr r) \<and> all_done (rp_procs r) \<and>
        contiguous (rp_segs r) \<and> covers (rp_segs r) (max_completion (rp_procs r))"
    by blast
  from lines_A_valid lines_A_fits quantum_2 lines_A_ample rr sj show ?thesis by blast
qed

text \<open>
  A run of rr.c whose single slice is \<open>INT_MAX\<close> ticks long.  Once every record is
  enqueued the inner loop changes only the clock and one remaining time, so the slice is
  computed in closed form instead of tick by tick.
\<close>

lemma fold_noop: "(\<And>x. x \<in> set xs \<Longrightarrow> f x a = a) \<Longrightarrow> fold f xs a = a"
  by (induction xs) simp_all

lemma enqueue_arrivals_m_settled:
  assumes "\<forall>p\<in>set ps. enqueued p"
  shows "enqueue_arrivals_m alloc ps q t = Inr (ps, q)"
  unfolding enqueue_arrivals_m_def
  by (rule fold_noop) (use assms in \<open>simp add: enqueue_step_m_def\<close>)

lemma rr_slice_m_settled:
  assumes "\<forall>p\<in>set (rr_procs s). enqueued p" "idx < length (rr_procs s)"
    "int m \<le> remaining (rr_procs s ! idx)" "remaining (rr_procs s ! idx) \<le> INT_MAX"
    "0 \<le> rr_clock s" "rr_clock s + int m \<le> INT_MAX"
  shows "rr_slice_m alloc m idx (s, cap) =
           Inr (s\<lparr>rr_procs := (rr_procs s)[idx := (rr_procs s ! idx)\<lparr>remaining := remaining (rr_procs s ! idx) - int m\<rparr>],
                  rr_clock := rr_clock s + int m\<rparr>, cap)"
  using assms
proof (induction m arbitrary: s)
  case 0
  then show ?case by simp
next
  case (Suc m)
  let ?ps = "rr_procs s" and ?t = "rr_clock s"
  let ?ps1 = "?ps[idx := (?ps ! idx)\<lparr>remaining := remaining (?ps ! idx) - 1\<rparr>]"
  let ?s1 = "s\<lparr>rr_procs := ?ps1, rr_clock := ?t + 1\<rparr>"
  from Suc.prems have w1: "wrap32 (?t + 1) = ?t + 1"
    by (intro wrap32_id) (auto simp: INT_MIN_def)
  from Suc.prems have w2: "wrap32 (remaining (?ps ! idx) - 1) = remaining (?ps ! idx) - 1"
    by (intro wrap32_id) (auto simp: INT_MIN_def)
  have enq: "\<forall>p\<in>set ?ps1. enqueued p"
  proof
    fix p assume "p \<in> set ?ps1"
    then have "p = (?ps ! idx)\<lparr>remaining := remaining (?ps ! idx) - 1\<rparr> \<or> p \<in> set ?ps"
      using set_update_subset_insert[of ?ps idx] by auto
    with Suc.prems(1,2) show "enqueued p" by auto
  qed
  have tick: "rr_tick_m alloc idx (s, cap) = Inr (?s1, cap)"
    by (simp add: rr_tick_m_def Let_def w1 w2 enqueue_arrivals_m_settled[OF enq])
  show ?case
  proof (cases "remaining (?ps ! idx) - 1 = 0")
    case True
    with Suc.prems(3) have "m = 0" by simp
    with True Suc.prems(2) show ?thesis by (simp add: tick)
  next
    case False
    have "rr_slice_m alloc m idx (?s1, cap) =
           Inr (?s1\<lparr>rr_procs := (rr_procs ?s1)[idx := (rr_procs ?s1 ! idx)\<lparr>remaining := remaining (rr_procs ?s1 ! idx) - int m\<rparr>],
                  rr_clock := rr_clock ?s1 + int m\<rparr>, cap)"
      by (rule Suc.IH) (use Suc.prems enq in \<open>simp_all\<close>)
    with False Suc.prems(2) show ?thesis by (simp add: tick algebra_simps)
  qed
qed

lemma long_init:
  "rr_init_m unlimited (map rr_new_process [(1, 0, 2147483647), (2, 0, 1)])
   = Inr (\<lparr>rr_procs = [\<lparr>pid = 1, arrival = 0, burst = 2147483647, remaining = 2147483647, completion = - 1, waiting = 0, turnaround = 0, enqueued = True\<rparr>,
                  \<lparr>pid = 2, arrival = 0, burst = 1, remaining = 1, completion = - 1, waiting = 0, turnaround = 0, enqueued = True\<rparr>],
      rr_segs = [],
      rr_queue = \<lparr>q_data = [0, 1, 0, 0], q_cap = 4, q_head = 0, q_tail = 2, q_size = 2\<rparr>,
      rr_clock = 0\<rparr>, 0)"
  by code_simp

lemma long_slice:
  "rr_slice_m unlimited (nat 2147483647) 0
     (\<lparr>rr_procs = [\<lparr>pid = 1, arrival = 0, burst = 2147483647, remaining = 2147483647, completion = - 1, waiting = 0, turnaround = 0, enqueued = True\<rparr>,
                  \<lparr>pid = 2, arrival = 0, burst = 1, remaining = 1, completion = - 1, waiting = 0, turnaround = 0, enqueued = True\<rparr>],
      rr_segs = [],
      rr_queue = \<lparr>q_data = [0, 1, 0, 0], q_cap = 4, q_head = 1, q_tail = 2, q_size = 1\<rparr>,
      rr_clock = 0\<rparr>, 0)
   = Inr (\<lparr>rr_procs = [\<lparr>pid = 1, arrival = 0, burst = 2147483647, remaining = 0, completion = - 1, waiting = 0, turnaround = 0, enqueued = True\<rparr>,
                  \<lparr>pid = 2, arrival = 0, burst = 1, remaining = 1, completion = - 1, waiting = 0, turnaround = 0, enqueued = True\<rparr>],
      rr_segs = [],
      rr_queue = \<lparr>q_data = [0, 1, 0, 0], q_cap = 4, q_head = 1, q_tail = 2, q_size = 1\<rparr>,
      rr_clock = 2147483647\<rparr>, 0)"
  by (subst rr_slice_m_settled) (simp_all add: INT_MAX_def)

lemma long_finish:
  "rr_finish_m unlimited 0 0
     (\<lparr>rr_procs = [\<lparr>pid = 1, arrival = 0, burst = 2147483647, remaining = 0, completion = - 1, waiting = 0, turnaround = 0, enqueued = True\<rparr>,
                  \<lparr>pid = 2, arrival = 0, burst = 1, remaining = 1, completion = - 1, waiting = 0, turnaround = 0, enqueued = True\<rparr>],
      rr_segs = [],
      rr_queue = \<lparr>q_data = [0, 1, 0, 0], q_cap = 4, q_head = 1, q_tail = 2, q_size = 1\<rparr>,
      rr_clock = 2147483647\<rparr>, 0)
   = Inr (\<lparr>rr_procs = [\<lparr>pid = 1, arrival = 0, burst = 2147483647, remaining = 0, completion = 2147483647, waiting = 0, turnaround = 0, enqueued = True\<rparr>,
                  \<lparr>pid = 2, arrival = 0, burst = 1, remaining = 1, completion = - 1, waiting = 0, turnaround = 0, enqueued = True\<rparr>],
      rr_segs = [\<lparr>s_pid = 1, s_start = 0, s_end = 2147483647\<rparr>],
      rr_queue = \<lparr>q_data = [0, 1, 0, 0], q_cap = 4, q_head = 1, q_tail = 2, q_size = 1\<rparr>,
      rr_clock = 2147483647\<rparr>, 16)"
  by code_simp

lemma long_rest:
  "map_option (map_sum id (\<lambda>r. (seg_triples (rp_segs r), lines_of (rp_procs r),
       map completion (rp_procs r), map turnaround (rp_procs r), map waiting (rp_procs r),
       map remaining (rp_procs r))))
     (map_option (map_sum id (\<lambda>ms'. make_report_m (rr_segs (fst ms')) (rr_procs (fst ms'))))
        (rr_loop_m unlimited 2147483647 (\<lparr>rr_procs = [\<lparr>pid = 1, arrival = 0, burst = 2147483647, remaining = 0, completion = 2147483647, waiting = 0, turnaround = 0, enqueued = True\<rparr>,
                  \<lparr>pid = 2, arrival = 0, burst = 1, remaining = 1, completion = - 1, waiting = 0, turnaround = 0, enqueued = True\<rparr>],
      rr_segs = [\<lparr>s_pid = 1, s_start = 0, s_end = 2147483647\<rparr>],
      rr_queue = \<lparr>q_data = [0, 1, 0, 0], q_cap = 4, q_head = 1, q_tail = 2, q_size = 1\<rparr>,
      rr_clock = 2147483647\<rparr>, 16)))
   = Some (Inr ([(1, 0, 2147483647), (2, 2147483647, - 2147483648)],
                [(1, 0, 2147483647), (2, 0, 1)], [2147483647, - 2147483648],
                [2147483647, - 2147483648], [0, 2147483647], [0, 0]))"
  by code_simp

lemma long_iter:
  "rr_iter_m unlimited 2147483647 (\<lparr>rr_procs = [\<lparr>pid = 1, arrival = 0, burst = 2147483647, remaining = 2147483647, completion = - 1, waiting = 0, turnaround = 0, enqueued = True\<rparr>,
                  \<lparr>pid = 2, arrival = 0, burst = 1, remaining = 1, completion = - 1, waiting = 0, turnaround = 0, enqueued = True\<rparr>],
      rr_segs = [],
      rr_queue = \<lparr>q_data = [0, 1, 0, 0], q_cap = 4, q_head = 0, q_tail = 2, q_size = 2\<rparr>,
      rr_clock = 0\<rparr>, 0)
   = Inr (Some (\<lparr>rr_procs = [\<lparr>pid = 1, arrival = 0, burst = 2147483647, remaining = 0, completion = 2147483647, waiting = 0, turnaround = 0, enqueued = True\<rparr>,
                  \<lparr>pid = 2, arrival = 0, burst = 1, remaining = 1, completion = - 1, waiting = 0, turnaround = 0, enqueued = True\<rparr>],
      rr_segs = [\<lparr>s_pid = 1, s_start = 0, s_end = 2147483647\<rparr>],
      rr_queue = \<lparr>q_data = [0, 1, 0, 0], q_cap = 4, q_head = 1, q_tail = 2, q_size = 1\<rparr>,
      rr_clock = 2147483647\<rparr>, 16))"
  using long_slice long_finish
  by (simp add: rr_iter_m_def rr_dispatch_m_def q_empty_def q_pop_def Let_def)

lemma long_not_done:
  "all_done (rr_procs (fst (\<lparr>rr_procs = [\<lparr>pid = 1, arrival = 0, burst = 2147483647, remaining = 2147483647, completion = - 1, waiting = 0, turnaround = 0, enqueued = True\<rparr>,
                  \<lparr>pid = 2, arrival = 0, burst = 1, remaining = 1, completion = - 1, waiting = 0, turnaround = 0, enqueued = True\<rparr>],
      rr_segs = [],
      rr_queue = \<lparr>q_data = [0, 1, 0, 0], q_cap = 4, q_head = 0, q_tail = 2, q_size = 2\<rparr>,
      rr_clock = 0\<rparr>, 0 :: int))) = False"
  by simp

lemma long_loop:
  "rr_loop_m unlimited 2147483647 (\<lparr>rr_procs = [\<lparr>pid = 1, arrival = 0, burst = 2147483647, remaining = 2147483647, completion = - 1, waiting = 0, turnaround = 0, enqueued = True\<rparr>,
                  \<lparr>pid = 2, arrival = 0, burst = 1, remaining = 1, completion = - 1, waiting = 0, turnaround = 0, enqueued = True\<rparr>],
      rr_segs = [],
      rr_queue = \<lparr>q_data = [0, 1, 0, 0], q_cap = 4, q_head = 0, q_tail = 2, q_size = 2\<rparr>,
      rr_clock = 0\<rparr>, 0)
   = rr_loop_m unlimited 2147483647 (\<lparr>rr_procs = [\<lparr>pid = 1, arrival = 0, burst = 2147483647, remaining = 0, completion = 2147483647, waiting = 0, turnaround = 0, enqueued = True\<rparr>,
                  \<lparr>pid = 2, arrival = 0, burst = 1, remaining = 1, completion = - 1, waiting = 0, turnaround = 0, enqueued = True\<rparr>],
      rr_segs = [\<lparr>s_pid = 1, s_start = 0, s_end = 2147483647\<rparr>],
      rr_queue = \<lparr>q_data = [0, 1, 0, 0], q_cap = 4, q_head = 1, q_tail = 2, q_size = 1\<rparr>,
      rr_clock = 2147483647\<rparr>, 16)"
  by (subst rr_loop_m.simps) (simp only: long_not_done if_False long_iter sum.case option.case)

lemma long_valid: "valid_input [(1, 0, 2147483647), (2, 0, 1)]"
  by (simp add: valid_input_def)

lemma long_granted: "granted unlimited (Processes (int (length [(1, 0, 2147483647 :: int), (2 :: int, 0 :: int, 1)])))"
  by (simp add: granted_def unlimited_def)

lemma long_quantum: "(0 :: int) < 2147483647"
  by simp

lemma rr_long_run:
  "map_option (map_sum id (\<lambda>r. (seg_triples (rp_segs r), lines_of (rp_procs r),
       map completion (rp_procs r), map turnaround (rp_procs r), map waiting (rp_procs r),
       map remaining (rp_procs r))))
     (rr_main_m unlimited (rr_stdin 2147483647 [(1, 0, 2147483647), (2, 0, 1)] []))
   = Some (Inr ([(1, 0, 2147483647), (2, 2147483647, - 2147483648)],
                [(1, 0, 2147483647), (2, 0, 1)], [2147483647, - 2147483648],
                [2147483647, - 2147483648], [0, 2147483647], [0, 0]))"
  by (simp only: rr_main_m_stdin[OF long_valid long_quantum long_granted] rr_simulate_m_def
      long_init sum.case long_loop long_rest)

lemma two_records:
  assumes "map f ps = [a, b]"
  shows "\<exists>p q. ps = [p, q] \<and> f p = a \<and> f q = b"
  using assms by auto

text \<open>
  C7, as stated, fails when the clock passes \<open>INT_MAX\<close>.  rr.c with quantum
  2147483647 on the valid input \<open>n = 2\<close>, lines \<open>1 0 2147483647\<close> and \<open>2 0 1\<close>: P1 runs
  from 0 to \<open>INT_MAX\<close>, then P2 runs its one unit and the clock wraps.  The run completes,
  and P2 is reported with turnaround \<open>-2147483648\<close>, below its burst, and waiting
  2147483647, so that turnaround is not waiting plus burst.  sjf.c on the line
  \<open>1 2147483646 2\<close> completes with completion time \<open>-2147483648\<close> and turnaround 2: the
  turnaround is not completion minus arrival.
\<close>

theorem metrics_break_on_overflow:
  "valid_input [(1, 0, 2147483647), (2, 0, 1)] \<and> valid_input [(1, 2147483646, 2)] \<and>
   (\<exists>r. rr_main_m unlimited (rr_stdin 2147483647 [(1, 0, 2147483647), (2, 0, 1)] []) = Some (Inr r) \<and>
        all_done (rp_procs r) \<and> lines_of (rp_procs r) = [(1, 0, 2147483647), (2, 0, 1)] \<and>
        map turnaround (rp_procs r) = [2147483647, - 2147483648] \<and>
        map waiting (rp_procs r) = [0, 2147483647] \<and>
        \<not> list_all metrics_ok (rp_procs r)) \<and>
   (\<exists>r. srtf_main_m unlimited (srtf_stdin [(1, 2147483646, 2)] []) = Some (Inr r) \<and>
        all_done (rp_procs r) \<and> lines_of (rp_procs r) = [(1, 2147483646, 2)] \<and>
        map completion (rp_procs r) = [- 2147483648] \<and>
        map turnaround (rp_procs r) = [2] \<and> map waiting (rp_procs r) = [0] \<and>
        \<not> list_all metrics_ok (rp_procs r))"
proof (intro conjI)
  show "valid_input [(1, 0, 2147483647), (2, 0, 1)]" "valid_input [(1, 2147483646, 2)]"
    by (simp_all add: valid_input_def)
next
  from rr_long_run obtain r where
    r: "rr_main_m unlimited (rr_stdin 2147483647 [(1, 0, 2147483647), (2, 0, 1)] []) = Some (Inr r)"
    and f: "(seg_triples (rp_segs r), lines_of (rp_procs r),
       map completion (rp_procs r), map turnaround (rp_procs r), map waiting (rp_procs r),
       map remaining (rp_procs r))
      = ([(1, 0, 2147483647), (2, 2147483647, - 2147483648)],
                [(1, 0, 2147483647), (2, 0, 1)], [2147483647, - 2147483648],
                [2147483647, - 2147483648], [0, 2147483647], [0, 0])"
    by (rule run_cases)
  from f have l: "lines_of (rp_procs r) = [(1, 0, 2147483647), (2, 0, 1)]"
    and t: "map turnaround (rp_procs r) = [2147483647, - 2147483648]"
    and w: "map waiting (rp_procs r) = [0, 2147483647]"
    and z: "map remaining (rp_procs r) = [0, 0]" by simp_all
  from two_records[OF t] obtain p q where p: "rp_procs r = [p, q]" "turnaround q = - 2147483648"
    by auto
  from z have ad: "all_done (rp_procs r)" by (auto simp: all_done_iff)
  from l p have "burst q = 1" by (simp add: lines_of_def)
  with p have nm: "\<not> list_all metrics_ok (rp_procs r)"
    by (simp add: metrics_ok_def)
  from r ad l t w nm
  show "\<exists>r. rr_main_m unlimited (rr_stdin 2147483647 [(1, 0, 2147483647), (2, 0, 1)] []) = Some (Inr r) \<and>
        all_done (rp_procs r) \<and> lines_of (rp_procs r) = [(1, 0, 2147483647), (2, 0, 1)] \<and>
        map turnaround (rp_procs r) = [2147483647, - 2147483648] \<and>
        map waiting (rp_procs r) = [0, 2147483647] \<and>
        \<not> list_all metrics_ok (rp_procs r)"
    by simp
next
  from srtf_overflow_run obtain r where r: "srtf_main_m unlimited (srtf_stdin [(1, 2147483646, 2)] []) = Some (Inr r)"
    and f: "(seg_triples (rp_segs r), map completion (rp_procs r),
       lines_of (rp_procs r), map turnaround (rp_procs r),
       map waiting (rp_procs r), map remaining (rp_procs r))
      = ([(- 1, 0, 2147483646), (1, 2147483646, - 2147483648)], [- 2147483648],
                [(1, 2147483646, 2)], [2], [0], [0])"
    by (rule run_cases)
  from f have c: "map completion (rp_procs r) = [- 2147483648]"
    and l: "lines_of (rp_procs r) = [(1, 2147483646, 2)]"
    and t: "map turnaround (rp_procs r) = [2]" and w: "map waiting (rp_procs r) = [0]"
    and z: "map remaining (rp_procs r) = [0]" by simp_all
  from one_record[OF c] obtain p where p: "rp_procs r = [p]" by auto
  from z have ad: "all_done (rp_procs r)" by (auto simp: all_done_iff)
  from c l t have nm: "\<not> list_all metrics_ok (rp_procs r)"
    by (simp add: p metrics_ok_def lines_of_def)
  from r ad l c t w nm
  show "\<exists>r. srtf_main_m unlimited (srtf_stdin [(1, 2147483646, 2)] []) = Some (Inr r) \<and>
        all_done (rp_procs r) \<and> lines_of (rp_procs r) = [(1, 2147483646, 2)] \<and>
        map completion (rp_procs r) = [- 2147483648] \<and>
        map turnaround (rp_procs r) = [2] \<and> map waiting (rp_procs r) = [0] \<and>
        \<not> list_all metrics_ok (rp_procs r)"
    by simp
qed

text \<open>
  C7, amended.  Take a valid input whose times fit in \<open>int\<close>, and for rr.c a quantum in
  \<open>(0, INT_MAX]\<close>.  Each program either stops on a failed allocation or prints its report,
  and prints it when no allocation fails.  The report has one record per input line, in
  order, with the pid, arrival and burst of the line.  In a report of rr.c every record
  is completed and has \<open>turnaround = waiting + burst\<close>,
  \<open>turnaround = completion - arrival\<close>, \<open>turnaround \<ge> burst\<close> and \<open>waiting \<ge> 0\<close>; in a
  report of sjf.c every completed record (\<open>remaining = 0\<close>) has them.
\<close>

theorem metrics_in_range:
  assumes "valid_input inp" "fits_int inp" "0 < quantum" "quantum \<le> INT_MAX"
  shows "(rr_main_m alloc (rr_stdin quantum inp rest) = Some (Inl OutOfMemory) \<or>
          (\<exists>r. rr_main_m alloc (rr_stdin quantum inp rest) = Some (Inr r) \<and>
               lines_of (rp_procs r) = inp \<and> all_done (rp_procs r) \<and>
               list_all metrics_ok (rp_procs r))) \<and>
         (ample alloc inp \<longrightarrow> (\<exists>r. rr_main_m alloc (rr_stdin quantum inp rest) = Some (Inr r))) \<and>
         (srtf_main_m alloc (srtf_stdin inp rest) = Some (Inl OutOfMemory) \<or>
          (\<exists>r. srtf_main_m alloc (srtf_stdin inp rest) = Some (Inr r) \<and>
               lines_of (rp_procs r) = inp \<and>
               list_all (\<lambda>p. remaining p = 0 \<longrightarrow> metrics_ok p) (rp_procs r))) \<and>
         (ample alloc inp \<longrightarrow> (\<exists>r. srtf_main_m alloc (srtf_stdin inp rest) = Some (Inr r)))"
proof -
  note rng = fits_int_range[OF assms(2)]
  from rr_report_in_range[OF assms(1) rng assms(3), of alloc rest]
  obtain s :: rr_state where
    d: "rr_main_m alloc (rr_stdin quantum inp rest) = Some (Inl OutOfMemory) \<or>
        rr_main_m alloc (rr_stdin quantum inp rest) = Some (Inr (make_report (rr_segs s) (rr_procs s)))"
    and a: "ample alloc inp \<longrightarrow>
        rr_main_m alloc (rr_stdin quantum inp rest) = Some (Inr (make_report (rr_segs s) (rr_procs s)))"
    and fin: "final_ok inp (rr_clock s) (rr_procs s) (rr_segs s)"
    by blast
  let ?r = "make_report (rr_segs s) (rr_procs s)"
  from final_ok_lines[OF fin] final_ok_metrics[OF fin]
  have p: "lines_of (rp_procs ?r) = inp \<and> all_done (rp_procs ?r) \<and> list_all metrics_ok (rp_procs ?r)"
    by (simp add: make_report_fields)
  have rr1: "rr_main_m alloc (rr_stdin quantum inp rest) = Some (Inl OutOfMemory) \<or>
          (\<exists>r. rr_main_m alloc (rr_stdin quantum inp rest) = Some (Inr r) \<and>
               lines_of (rp_procs r) = inp \<and> all_done (rp_procs r) \<and>
               list_all metrics_ok (rp_procs r))"
    using d p by blast
  have rr2: "ample alloc inp \<longrightarrow> (\<exists>r. rr_main_m alloc (rr_stdin quantum inp rest) = Some (Inr r))"
    using a by blast
  let ?f = "srtf_final inp"
  let ?m = "make_report_m (sj_segs ?f) (sj_procs ?f)"
  note o = srtf_main_m_outcome[OF assms(1) rng, of alloc rest]
  note sr = srtf_report_in_range[OF assms(1) rng]
  from sr(1,2)
  have q: "lines_of (rp_procs ?m) = inp \<and>
           list_all (\<lambda>p. remaining p = 0 \<longrightarrow> metrics_ok p) (rp_procs ?m)"
    by (simp only: make_report_m_fields simp_thms)
  have sj1: "srtf_main_m alloc (srtf_stdin inp rest) = Some (Inl OutOfMemory) \<or>
          (\<exists>r. srtf_main_m alloc (srtf_stdin inp rest) = Some (Inr r) \<and>
               lines_of (rp_procs r) = inp \<and>
               list_all (\<lambda>p. remaining p = 0 \<longrightarrow> metrics_ok p) (rp_procs r))"
    using o(1) q by blast
  have sj2: "ample alloc inp \<longrightarrow> (\<exists>r. srtf_main_m alloc (srtf_stdin inp rest) = Some (Inr r))"
    using o(2) by blast
  from rr1 rr2 sj1 sj2 show ?thesis by (intro conjI)
qed

theorem metrics_in_range_witness:
  "valid_input lines_A \<and> fits_int lines_A \<and> (0 :: int) < 2 \<and> (2 :: int) \<le> INT_MAX \<and>
   ample unlimited lines_A \<and>
   (\<exists>r. rr_main_m unlimited (rr_stdin 2 lines_A []) = Some (Inr r) \<and>
        lines_of (rp_procs r) = lines_A \<and> all_done (rp_procs r) \<and>
        list_all metrics_ok (rp_procs r)) \<and>
   (\<exists>r. srtf_main_m unlimited (srtf_stdin lines_A []) = Some (Inr r) \<and>
        lines_of (rp_procs r) = lines_A \<and> all_done (rp_procs r) \<and>
        list_all metrics_ok (rp_procs r))"
proof -
  let ?m = "make_report_m (sj_segs (srtf_final lines_A)) (sj_procs (srtf_final lines_A))"
  note t = metrics_in_range[OF lines_A_valid lines_A_fits conjunct1[OF quantum_2]
      conjunct2[OF quantum_2], of unlimited "[]"]
  from t have r1: "rr_main_m unlimited (rr_stdin 2 lines_A []) = Some (Inl OutOfMemory) \<or>
          (\<exists>r. rr_main_m unlimited (rr_stdin 2 lines_A []) = Some (Inr r) \<and>
               lines_of (rp_procs r) = lines_A \<and> all_done (rp_procs r) \<and>
               list_all metrics_ok (rp_procs r))"
    and r2: "ample unlimited lines_A \<longrightarrow> (\<exists>r. rr_main_m unlimited (rr_stdin 2 lines_A []) = Some (Inr r))"
    and s1: "srtf_main_m unlimited (srtf_stdin lines_A []) = Some (Inl OutOfMemory) \<or>
          (\<exists>r. srtf_main_m unlimited (srtf_stdin lines_A []) = Some (Inr r) \<and>
               lines_of (rp_procs r) = lines_A \<and>
               list_all (\<lambda>p. remaining p = 0 \<longrightarrow> metrics_ok p) (rp_procs r))"
    by blast+
  from r2 lines_A_ample obtain r0 where r0: "rr_main_m unlimited (rr_stdin 2 lines_A []) = Some (Inr r0)"
    by blast
  with r1 have rr: "\<exists>r. rr_main_m unlimited (rr_stdin 2 lines_A []) = Some (Inr r) \<and>
        lines_of (rp_procs r) = lines_A \<and> all_done (rp_procs r) \<and>
        list_all metrics_ok (rp_procs r)"
    by simp
  from s1 lines_A_srtf_report(1)
  have m: "lines_of (rp_procs ?m) = lines_A"
    "list_all (\<lambda>p. remaining p = 0 \<longrightarrow> metrics_ok p) (rp_procs ?m)"
    by simp_all
  from srtf_run_final[OF lines_A_valid srtf_completes[OF lines_A_valid lines_A_below]]
  have "list_all (\<lambda>p. remaining p = 0) (rp_procs ?m)"
    by (simp add: final_ok_def make_report_m_fields list_all_length)
  with m(2) have "list_all metrics_ok (rp_procs ?m)"
    by (simp add: list_all_iff)
  with m(1) lines_A_srtf_report
  have sj: "\<exists>r. srtf_main_m unlimited (srtf_stdin lines_A []) = Some (Inr r) \<and>
        lines_of (rp_procs r) = lines_A \<and> all_done (rp_procs r) \<and>
        list_all metrics_ok (rp_procs r)"
    by blast
  from lines_A_valid lines_A_fits quantum_2 lines_A_ample rr sj show ?thesis by blast
qed

lemma idle_pid_rr_run:
  "map_option (map_sum id (\<lambda>r. (seg_triples (rp_segs r), busy_time (rp_segs r),
       lines_of (rp_procs r), map remaining (rp_procs r))))
     (rr_main_m unlimited (rr_stdin 1 [(- 1, 0, 3)] []))
   = Some (Inr ([(- 1, 0, 3)], 0, [(- 1, 0, 3)], [0]))"
  by code_simp

lemma idle_pid_srtf_run:
  "map_option (map_sum id (\<lambda>r. (seg_triples (rp_segs r), busy_time (rp_segs r),
       lines_of (rp_procs r), map remaining (rp_procs r))))
     (srtf_main_m unlimited (srtf_stdin [(- 1, 0, 3)] []))
   = Some (Inr ([(- 1, 0, 3)], 0, [(- 1, 0, 3)], [0]))"
  by code_simp

text \<open>
  C4.  The input: one process line \<open>-1 0 3\<close> (quantum 1 for rr.c); it is valid and its
  times fit in \<open>int\<close>.  Both runs complete, and the process runs from 0 to 3, but its
  segment is recorded under its pid, which is the value that marks IDLE: the timeline is
  the single segment \<open>[0 - 3] IDLE\<close>, so the durations of the non-IDLE segments sum to 0
  while the bursts sum to 3.
\<close>

theorem busy_time_idle_pid:
  "valid_input [(- 1, 0, 3)] \<and> fits_int [(- 1, 0, 3)] \<and> total_burst [(- 1, 0, 3)] = 3 \<and>
   (\<exists>r. rr_main_m unlimited (rr_stdin 1 [(- 1, 0, 3)] []) = Some (Inr r) \<and>
        all_done (rp_procs r) \<and> seg_triples (rp_segs r) = [(- 1, 0, 3)] \<and>
        busy_time (rp_segs r) = 0) \<and>
   (\<exists>r. srtf_main_m unlimited (srtf_stdin [(- 1, 0, 3)] []) = Some (Inr r) \<and>
        all_done (rp_procs r) \<and> seg_triples (rp_segs r) = [(- 1, 0, 3)] \<and>
        busy_time (rp_segs r) = 0)"
proof (intro conjI)
  show "valid_input [(- 1, 0, 3)]" by (simp add: valid_input_def)
  show "fits_int [(- 1, 0, 3)]"
    by (simp add: fits_int_def total_burst_def INT_MIN_def INT_MAX_def)
  show "total_burst [(- 1, 0, 3)] = 3" by (simp add: total_burst_def)
next
  from idle_pid_rr_run obtain r where r: "rr_main_m unlimited (rr_stdin 1 [(- 1, 0, 3)] []) = Some (Inr r)"
    and f: "(seg_triples (rp_segs r), busy_time (rp_segs r), lines_of (rp_procs r),
             map remaining (rp_procs r)) = ([(- 1, 0, 3)], 0, [(- 1, 0, 3)], [0])"
    by (rule run_cases)
  from f have sg: "seg_triples (rp_segs r) = [(- 1, 0, 3)]" and b: "busy_time (rp_segs r) = 0"
    and z: "map remaining (rp_procs r) = [0]" by simp_all
  from z have ad: "all_done (rp_procs r)" by (auto simp: all_done_iff)
  from r ad sg b
  show "\<exists>r. rr_main_m unlimited (rr_stdin 1 [(- 1, 0, 3)] []) = Some (Inr r) \<and>
        all_done (rp_procs r) \<and> seg_triples (rp_segs r) = [(- 1, 0, 3)] \<and>
        busy_time (rp_segs r) = 0"
    by simp
next
  from idle_pid_srtf_run obtain r where r: "srtf_main_m unlimited (srtf_stdin [(- 1, 0, 3)] []) = Some (Inr r)"
    and f: "(seg_triples (rp_segs r), busy_time (rp_segs r), lines_of (rp_procs r),
             map remaining (rp_procs r)) = ([(- 1, 0, 3)], 0, [(- 1, 0, 3)], [0])"
    by (rule run_cases)
  from f have sg: "seg_triples (rp_segs r) = [(- 1, 0, 3)]" and b: "busy_time (rp_segs r) = 0"
    and z: "map remaining (rp_procs r) = [0]" by simp_all
  from z have ad: "all_done (rp_procs r)" by (auto simp: all_done_iff)
  from r ad sg b
  show "\<exists>r. srtf_main_m unlimited (srtf_stdin [(- 1, 0, 3)] []) = Some (Inr r) \<and>
        all_done (rp_procs r) \<and> seg_triples (rp_segs r) = [(- 1, 0, 3)] \<and>
        busy_time (rp_segs r) = 0"
    by simp
qed

text \<open>
  Everywhere else the equality holds: for a valid input whose times fit in \<open>int\<close> and in
  which no pid is \<open>-1\<close>, the non-IDLE segments of every report of rr.c, and of every
  report of a completed run of sjf.c, sum to the sum of the bursts.
\<close>

lemma busy_time_in_range:
  assumes "valid_input inp" "fits_int inp" "0 < quantum" "list_all (\<lambda>l. fst l \<noteq> - 1) inp"
  shows "rr_main_m alloc (rr_stdin quantum inp rest) = Some (Inl OutOfMemory) \<or>
          (\<exists>r. rr_main_m alloc (rr_stdin quantum inp rest) = Some (Inr r) \<and>
               busy_time (rp_segs r) = total_burst inp)"
    and "srtf_main_m alloc (srtf_stdin inp rest) = Some (Inl OutOfMemory) \<or>
          (\<exists>r. srtf_main_m alloc (srtf_stdin inp rest) = Some (Inr r) \<and>
               (all_done (rp_procs r) \<longrightarrow> busy_time (rp_segs r) = total_burst inp))"
proof -
  note rng = fits_int_range[OF assms(2)]
  from rr_report_in_range[OF assms(1) rng assms(3), of alloc rest]
  obtain s :: rr_state where
    d: "rr_main_m alloc (rr_stdin quantum inp rest) = Some (Inl OutOfMemory) \<or>
        rr_main_m alloc (rr_stdin quantum inp rest) = Some (Inr (make_report (rr_segs s) (rr_procs s)))"
    and fin: "final_ok inp (rr_clock s) (rr_procs s) (rr_segs s)"
    by blast
  from final_ok_busy[OF fin assms(4)]
  have "busy_time (rp_segs (make_report (rr_segs s) (rr_procs s))) = total_burst inp"
    by (simp add: make_report_fields)
  with d show "rr_main_m alloc (rr_stdin quantum inp rest) = Some (Inl OutOfMemory) \<or>
          (\<exists>r. rr_main_m alloc (rr_stdin quantum inp rest) = Some (Inr r) \<and>
               busy_time (rp_segs r) = total_burst inp)"
    by blast
  let ?f = "srtf_final inp"
  let ?m = "make_report_m (sj_segs ?f) (sj_procs ?f)"
  note o = srtf_main_m_outcome[OF assms(1) rng, of alloc rest]
  have "busy_time (rp_segs ?m) = total_burst inp" if "all_done (rp_procs ?m)"
  proof -
    from that have ad: "all_done (sj_procs ?f)"
      by (simp add: make_report_m_fields all_done_set_metrics_m)
    from final_ok_busy[OF srtf_run_final[OF assms(1) ad] assms(4)]
    show ?thesis by (simp add: make_report_m_fields)
  qed
  with o(1) show "srtf_main_m alloc (srtf_stdin inp rest) = Some (Inl OutOfMemory) \<or>
          (\<exists>r. srtf_main_m alloc (srtf_stdin inp rest) = Some (Inr r) \<and>
               (all_done (rp_procs r) \<longrightarrow> busy_time (rp_segs r) = total_burst inp))"
    by blast
qed

section \<open>Exit status\<close>








lemma exit_status_simps: "exit_status (Inl e) = 1" "exit_status (Inr r) = 0"
  by (simp_all add: exit_status_def)

text \<open>
  The capacity of the segment array is an \<open>int\<close> that doubles: at \<open>2^30\<close> segments the
  next doubling wraps to a negative count, which no allocator grants.
\<close>

lemma add_segment_m_cap_overflow:
  assumes "int (length sgs) = 1073741824" "st \<noteq> en"
    "\<not> (sgs \<noteq> [] \<and> s_pid (last sgs) = p \<and> s_end (last sgs) = st)"
  shows "add_segment_m alloc (sgs, 1073741824) p st en = Inl OutOfMemory"
  using assms by (simp add: add_segment_m_def Let_def wrap32_def granted_def)






lemma total_burst_bounds:
  assumes "valid_input inp"
  shows "l \<in> set inp \<Longrightarrow> snd (snd l) \<le> total_burst inp"
    and "int (length inp) \<le> total_burst inp"
proof -
  from assms have pos: "list_all (\<lambda>l. 0 < snd (snd l)) inp"
    by (auto simp: valid_input_def list_all_iff)
  have nn: "0 \<le> sum_list (map (\<lambda>l. snd (snd l)) xs)"
    if "list_all (\<lambda>l. 0 < snd (snd l)) xs" for xs :: "(int \<times> int \<times> int) list"
    by (rule sum_list_nonneg) (use that in \<open>auto simp: list_all_iff less_imp_le\<close>)
  show "snd (snd l) \<le> total_burst inp" if "l \<in> set inp"
    using pos that unfolding total_burst_def
  proof (induction inp)
    case Nil
    then show ?case by simp
  next
    case (Cons x xs)
    from Cons.prems(1) have px: "0 < snd (snd x)" and pxs: "list_all (\<lambda>l. 0 < snd (snd l)) xs"
      by simp_all
    show ?case
    proof (cases "l = x")
      case True
      with nn[OF pxs] show ?thesis by simp
    next
      case False
      with Cons.prems(2) have "l \<in> set xs" by simp
      from Cons.IH[OF pxs this] px show ?thesis by simp
    qed
  qed
  show "int (length inp) \<le> total_burst inp"
    using pos unfolding total_burst_def by (induction inp) auto
qed

text \<open>
  Every number that rr.c reads from such an input is within \<open>int\<close> (and so is every
  number that sjf.c reads, which are the same without the quantum).
\<close>

lemma fits_int_tokens:
  assumes v: "valid_input inp" and f: "fits_int inp" and q: "0 < quantum" "quantum \<le> INT_MAX"
  shows "int_tokens (rr_stdin quantum inp [])"
proof -
  note rng = fits_int_range[OF f]
  note mn = max_arrival_nonneg[of inp]
  have line: "INT_MIN \<le> a \<and> a \<le> INT_MAX \<and> INT_MIN \<le> b \<and> b \<le> INT_MAX \<and> INT_MIN \<le> c \<and> c \<le> INT_MAX"
    if "(a, b, c) \<in> set inp" for a b c
  proof -
    from that f have "INT_MIN \<le> a \<and> a \<le> INT_MAX" by (auto simp: fits_int_def list_all_iff)
    moreover from that v have "0 \<le> b" "0 < c" by (auto simp: valid_input_def list_all_iff)
    moreover from max_arrival_ge[OF that] have "b \<le> max_arrival inp" by simp
    moreover from total_burst_bounds(1)[OF v that] have "c \<le> total_burst inp" by simp
    moreover from total_burst_bounds(2)[OF v] have "0 \<le> total_burst inp" by linarith
    ultimately show ?thesis using rng mn by (auto simp: INT_MIN_def)
  qed
  have "int_tokens (tokens_of xs)" if "set xs \<subseteq> set inp" for xs
    using that
  proof (induction xs)
    case Nil
    then show ?case by (simp add: tokens_of_def int_tokens_def)
  next
    case (Cons l xs)
    obtain a b c where l: "l = (a, b, c)" by (cases l)
    with Cons.prems have "(a, b, c) \<in> set inp" by simp
    from line[OF this] Cons l show ?case by (simp add: tokens_of_def int_tokens_def)
  qed
  then have t: "int_tokens (tokens_of inp)" by simp
  from total_burst_bounds(2)[OF v] rng mn have "int (length inp) \<le> INT_MAX" by linarith
  with t q show ?thesis
    by (simp add: rr_stdin_def int_tokens_def INT_MIN_def)
qed

end
